theory Spec2Isabelle
  imports Main "HOL-Library.Word"
begin

section \<open>Data model (eos_kernel.h, eos_queue.h, eos_semaphore.h)\<close>

text \<open>
  Pointers are addresses; \<open>NULL\<close> is address 0. The field \<open>blocked\<close> of a task control
  block is a \<open>void*\<close> that holds 0 (runnable), the constant \<open>EOS_TIMED_OUT\<close> (asleep) or the
  address of the semaphore or queue the task waits on.
\<close>

type_synonym addr = nat

definition NULL :: addr where
  "NULL = 0"

definition EOS_TIMED_OUT :: addr where
  "EOS_TIMED_OUT = 2"

definition EOS_PAUSED :: "8 word" where
  "EOS_PAUSED = 1"

datatype EOS_status_t = EOS_ERROR | EOS_OK | EOS_BLOCKED | EOS_USE_FPU | EOS_NO_FPU

datatype EOS_block_status_t = EOS_NO_BLOCK | EOS_BLOCK

definition PRIORITY_IDLE :: "32 word" where "PRIORITY_IDLE = 0"
definition PRIORITY_LOW :: "32 word" where "PRIORITY_LOW = 1"
definition PRIORITY_MEDIUM :: "32 word" where "PRIORITY_MEDIUM = 2"
definition PRIORITY_HIGH :: "32 word" where "PRIORITY_HIGH = 3"

text \<open>\<open>EOS_TCB_t\<close>; the field \<open>next\<close> is written \<open>nxt\<close>.\<close>

record EOS_TCB_t =
  sp :: addr
  blocked :: addr
  nxt :: addr
  timeOut :: "32 word"
  priority :: "8 word"
  paused :: "8 word"

record EOS_semaphore_t =
  s_count :: "32 word"
  s_max_count :: "32 word"

text \<open>\<open>EOS_queue_t\<close>; \<open>q_buffer\<close> is the content of the allocated buffer, by byte offset.\<close>

record EOS_queue_t =
  q_buffer :: "nat \<Rightarrow> 8 word"
  q_head :: "32 word"
  q_tail :: "32 word"
  q_size :: "32 word"
  q_item_size :: "32 word"
  q_count :: "32 word"

text \<open>
  The kernel state: the task control blocks, semaphores and queues by address, the global
  \<open>run_ptr\<close>, the interrupt mask (PRIMASK) and the pending bit of the PendSV exception.
\<close>

record kernel =
  tcbs :: "addr \<Rightarrow> EOS_TCB_t option"
  run_ptr :: addr
  primask :: bool
  pendsv :: bool
  sems :: "addr \<Rightarrow> EOS_semaphore_t option"
  queues :: "addr \<Rightarrow> EOS_queue_t option"

text \<open>The address of the static object \<open>idle_task\<close> and of \<open>idle_stack\<close>.\<close>

definition idle_task :: addr where
  "idle_task = 32"

definition idle_stack :: addr where
  "idle_stack = 64"

text \<open>The static initialiser of \<open>idle_task\<close> and \<open>run_ptr\<close> (eos_kernel.c lines 42-52).\<close>

definition idle_tcb :: EOS_TCB_t where
  "idle_tcb = \<lparr> sp = idle_stack + 4 * 15, blocked = 0, nxt = idle_task, timeOut = 0,
                priority = ucast PRIORITY_IDLE, paused = 0 \<rparr>"

definition kernel_init :: kernel where
  "kernel_init = \<lparr> tcbs = (\<lambda>a. None)(idle_task := Some idle_tcb), run_ptr = idle_task,
                    primask = False, pendsv = False,
                    sems = (\<lambda>a. None), queues = (\<lambda>a. None) \<rparr>"

section \<open>Helper functions (eos_kernel.c lines 409-427)\<close>

text \<open>
  Modelled from the spec: \<open>__disable_irq\<close>, which \<open>EOS_EnterCritical\<close> calls, is not part of
  the sources; the platform contract gives a primitive that masks all maskable interrupts.
\<close>

definition EOS_EnterCritical :: "kernel \<Rightarrow> kernel" where
  "EOS_EnterCritical s = s\<lparr>primask := True\<rparr>"

text \<open>
  Modelled from the spec: \<open>__enable_irq\<close>, which \<open>EOS_ExitCritical\<close> calls, is not part of
  the sources; the platform contract gives a primitive that unmasks the maskable interrupts.
\<close>

definition EOS_ExitCritical :: "kernel \<Rightarrow> kernel" where
  "EOS_ExitCritical s = s\<lparr>primask := False\<rparr>"

text \<open>
  Modelled from the spec: the register \<open>SCB->ICSR\<close> and the mask \<open>SCB_ICSR_PENDSVSET_Msk\<close>
  that \<open>EOS_Suspend\<close> writes to it are not part of the sources; the platform contract gives
  a deferred interrupt that the kernel can pend from anywhere to request a context switch.
\<close>

definition EOS_Suspend :: "kernel \<Rightarrow> kernel" where
  "EOS_Suspend s = s\<lparr>pendsv := True\<rparr>"

section \<open>Thread creation (eos_kernel.c lines 78-154)\<close>

text \<open>
  The walk \<open>while (temp->next != run_ptr) temp = temp->next\<close>. Reading through an address
  that holds no task control block gives no result, as does a walk that never ends.
\<close>

partial_function (option) ThreadNew_walk :: "(addr \<Rightarrow> EOS_TCB_t option) \<Rightarrow> addr \<Rightarrow> addr \<Rightarrow> addr option" where
  "ThreadNew_walk h r temp =
     (case h temp of
        None \<Rightarrow> None
      | Some t \<Rightarrow> if nxt t \<noteq> r then ThreadNew_walk h r (nxt t) else Some temp)"

declare ThreadNew_walk.simps [code]

text \<open>
  The stack of the new task (lines 91-130): \<open>stack_mem\<close> is the result of \<open>malloc\<close> for the
  stack, read only when \<open>task_stack\<close> is \<open>NULL\<close>. The result is the address of the word
  \<open>stack_size - 51\<close> or \<open>stack_size - 17\<close> of the stack; the words written into the stack are
  not part of the state.
\<close>

definition ThreadNew_sp :: "addr \<Rightarrow> addr \<Rightarrow> 32 word \<Rightarrow> EOS_status_t \<Rightarrow> addr" where
  "ThreadNew_sp task_stack stack_mem stack_size use_fpu =
     (let base = (if task_stack = NULL then stack_mem else task_stack)
      in if use_fpu = EOS_USE_FPU then base + 4 * unat (stack_size - 51)
         else base + 4 * unat (stack_size - 17))"

text \<open>The fields written at lines 137-141; \<open>next\<close> is written after the walk.\<close>

definition ThreadNew_block :: "addr \<Rightarrow> 32 word \<Rightarrow> EOS_TCB_t" where
  "ThreadNew_block stack_top prio =
     \<lparr> sp = stack_top, blocked = 0, nxt = NULL, timeOut = 0, priority = ucast prio, paused = 0 \<rparr>"

text \<open>
  \<open>EOS_ThreadNew\<close>. The two results of \<open>malloc\<close> are arguments: \<open>control_block\<close> for the task
  control block and \<open>stack_mem\<close> for the stack; either is \<open>NULL\<close> when the allocation fails.
  The return value \<open>EOS_ERROR\<close> is the null pointer. The two argument checks return before
  anything is allocated. When no stack is available (lines 97-101) the control block is
  freed, which is defined also for a null pointer, and the call returns \<open>EOS_ERROR\<close>. When
  the control block was not allocated but a stack is available (lines 132-135) the code
  passes \<open>sp\<close> to \<open>free\<close>; by then \<open>sp\<close> is the address of a word inside the stack (lines
  107, 112, 122, 127), which \<open>malloc\<close> did not return and which lies in the caller's own
  array when \<open>task_stack\<close> is given: the behaviour is undefined and the call has no result.
\<close>

definition EOS_ThreadNew ::
  "addr \<Rightarrow> 32 word \<Rightarrow> addr \<Rightarrow> 32 word \<Rightarrow> EOS_status_t \<Rightarrow> addr \<Rightarrow> addr \<Rightarrow> kernel \<Rightarrow> (addr \<times> kernel) option" where
  "EOS_ThreadNew function prio task_stack stack_size use_fpu control_block stack_mem s =
     (if stack_size < 64 then Some (NULL, s)
      else if prio > PRIORITY_HIGH then Some (NULL, s)
      else if task_stack = NULL \<and> stack_mem = NULL then Some (NULL, s)
      else if control_block = NULL then None
      else
        let cb = ThreadNew_block (ThreadNew_sp task_stack stack_mem stack_size use_fpu) prio;
            h = (tcbs s)(control_block := Some cb)
        in (case ThreadNew_walk h (run_ptr s) (run_ptr s) of
              None \<Rightarrow> None
            | Some temp \<Rightarrow>
                (case h temp of
                   None \<Rightarrow> None
                 | Some t \<Rightarrow>
                     let h1 = h(temp := Some (t\<lparr>nxt := control_block\<rparr>));
                         h2 = h1(control_block := Some (cb\<lparr>nxt := run_ptr s\<rparr>))
                     in Some (control_block, s\<lparr>tcbs := h2\<rparr>))))"

section \<open>Scheduler (eos_kernel.c lines 219-240)\<close>

definition runnable :: "EOS_TCB_t \<Rightarrow> bool" where
  "runnable t = (blocked t = 0 \<and> paused t = 0)"

text \<open>The loop \<open>while (current_ptr != run_ptr)\<close> with its two local pointers.\<close>

partial_function (option) scheduler_loop ::
  "(addr \<Rightarrow> EOS_TCB_t option) \<Rightarrow> addr \<Rightarrow> addr \<Rightarrow> addr \<Rightarrow> addr option" where
  "scheduler_loop h r current_ptr best_pointer =
     (if current_ptr \<noteq> r then
        (case h current_ptr of
           None \<Rightarrow> None
         | Some c \<Rightarrow>
             if blocked c = 0 \<and> paused c = 0 then
               (case h best_pointer of
                  None \<Rightarrow> None
                | Some b \<Rightarrow>
                    scheduler_loop h r (nxt c)
                      (if priority c \<ge> priority b then current_ptr else best_pointer))
             else scheduler_loop h r (nxt c) best_pointer)
      else Some best_pointer)"

declare scheduler_loop.simps [code]

definition EOS_scheduler :: "kernel \<Rightarrow> kernel option" where
  "EOS_scheduler s =
     (case tcbs s (run_ptr s) of
        None \<Rightarrow> None
      | Some r \<Rightarrow>
          if blocked r \<noteq> 0 \<or> paused r \<noteq> 0 then
            (case tcbs s idle_task of
               None \<Rightarrow> None
             | Some i \<Rightarrow>
                 (case scheduler_loop (tcbs s) (run_ptr s) (nxt i) idle_task of
                    None \<Rightarrow> None
                  | Some best \<Rightarrow> Some (s\<lparr>run_ptr := best\<rparr>)))
          else
            (case scheduler_loop (tcbs s) (run_ptr s) (nxt r) (run_ptr s) of
               None \<Rightarrow> None
             | Some best \<Rightarrow> Some (s\<lparr>run_ptr := best\<rparr>)))"

section \<open>Delay, pause and resume (eos_kernel.c lines 321-399)\<close>

definition EOS_Delay :: "32 word \<Rightarrow> kernel \<Rightarrow> kernel option" where
  "EOS_Delay timeout s =
     (let s1 = EOS_EnterCritical s;
          timeout1 = (if timeout = 0 then 1 else timeout)
      in (case tcbs s1 (run_ptr s1) of
            None \<Rightarrow> None
          | Some r \<Rightarrow>
              Some (EOS_Suspend (EOS_ExitCritical
                (s1\<lparr>tcbs := (tcbs s1)(run_ptr s1 :=
                       Some (r\<lparr>blocked := EOS_TIMED_OUT, timeOut := timeout1\<rparr>))\<rparr>)))))"

definition EOS_Pause :: "addr \<Rightarrow> kernel \<Rightarrow> (EOS_status_t \<times> kernel) option" where
  "EOS_Pause task s =
     (let s1 = EOS_EnterCritical s
      in if task = NULL then Some (EOS_ERROR, s1)
         else (case tcbs s1 task of
                 None \<Rightarrow> None
               | Some t \<Rightarrow>
                   if paused t \<noteq> 0 then Some (EOS_ERROR, s1)
                   else
                     let s2 = s1\<lparr>tcbs := (tcbs s1)(task := Some (t\<lparr>paused := EOS_PAUSED\<rparr>))\<rparr>;
                         s3 = (if task = run_ptr s2 then EOS_Suspend (EOS_ExitCritical s2) else s2)
                     in Some (EOS_OK, EOS_ExitCritical s3)))"

definition EOS_Resume :: "addr \<Rightarrow> kernel \<Rightarrow> (EOS_status_t \<times> kernel) option" where
  "EOS_Resume task s =
     (let s1 = EOS_EnterCritical s
      in if task = NULL then Some (EOS_ERROR, s1)
         else (case tcbs s1 task of
                 None \<Rightarrow> None
               | Some t \<Rightarrow>
                   if paused t \<noteq> EOS_PAUSED then Some (EOS_ERROR, s1)
                   else Some (EOS_OK,
                          EOS_ExitCritical (s1\<lparr>tcbs := (tcbs s1)(task := Some (t\<lparr>paused := 0\<rparr>))\<rparr>))))"

section \<open>Waking a waiter (eos_kernel.c lines 438-467)\<close>

text \<open>The body of the \<open>do\<close> loop up to the advance of \<open>tmp_ptr\<close>: the new value of \<open>best_ptr\<close>.\<close>

definition TaskUnblock_pick ::
  "(addr \<Rightarrow> EOS_TCB_t option) \<Rightarrow> addr \<Rightarrow> addr \<Rightarrow> EOS_TCB_t \<Rightarrow> addr \<Rightarrow> addr option" where
  "TaskUnblock_pick h item tmp_ptr t best_ptr =
     (if blocked t = item then
        (if best_ptr = NULL then Some tmp_ptr
         else (case h best_ptr of
                 None \<Rightarrow> None
               | Some b \<Rightarrow> Some (if priority t > priority b then tmp_ptr else best_ptr)))
      else Some best_ptr)"

text \<open>The loop \<open>do { ... } while (tmp_ptr != start_ptr)\<close>: the body runs before the test.\<close>

partial_function (option) TaskUnblock_loop ::
  "(addr \<Rightarrow> EOS_TCB_t option) \<Rightarrow> addr \<Rightarrow> addr \<Rightarrow> addr \<Rightarrow> addr \<Rightarrow> addr option" where
  "TaskUnblock_loop h item start_ptr tmp_ptr best_ptr =
     (case h tmp_ptr of
        None \<Rightarrow> None
      | Some t \<Rightarrow>
          (case TaskUnblock_pick h item tmp_ptr t best_ptr of
             None \<Rightarrow> None
           | Some best \<Rightarrow>
               if nxt t \<noteq> start_ptr then TaskUnblock_loop h item start_ptr (nxt t) best
               else Some best))"

declare TaskUnblock_loop.simps [code]

definition EOS_TaskUnblock :: "addr \<Rightarrow> kernel \<Rightarrow> kernel option" where
  "EOS_TaskUnblock item s =
     (case tcbs s (run_ptr s) of
        None \<Rightarrow> None
      | Some r \<Rightarrow>
          (case TaskUnblock_loop (tcbs s) item (run_ptr s) (nxt r) NULL of
             None \<Rightarrow> None
           | Some best_ptr \<Rightarrow>
               if best_ptr \<noteq> NULL then
                 (case tcbs s best_ptr of
                    None \<Rightarrow> None
                  | Some b \<Rightarrow>
                      let s1 = s\<lparr>tcbs := (tcbs s)(best_ptr := Some (b\<lparr>blocked := 0\<rparr>))\<rparr>
                      in (case tcbs s1 (run_ptr s1) of
                            None \<Rightarrow> None
                          | Some r1 \<Rightarrow>
                              if priority b > priority r1
                              then Some (EOS_Suspend (EOS_ExitCritical s1))
                              else Some s1))
               else Some s))"

section \<open>Timeouts (eos_kernel.c lines 472-492)\<close>

text \<open>The body of the loop of \<open>EOS_HandleTimeout\<close> on the block \<open>current\<close> points at.\<close>

definition HandleTimeout_body :: "EOS_TCB_t \<Rightarrow> EOS_TCB_t" where
  "HandleTimeout_body c =
     (if blocked c = EOS_TIMED_OUT \<and> paused c = 0 then
        (if timeOut c > 0 then
           (let c1 = c\<lparr>timeOut := timeOut c - 1\<rparr>
            in if timeOut c1 = 0 then c1\<lparr>blocked := 0\<rparr> else c1)
         else c)
      else c)"

partial_function (option) HandleTimeout_loop ::
  "(addr \<Rightarrow> EOS_TCB_t option) \<Rightarrow> addr \<Rightarrow> addr \<Rightarrow> (addr \<Rightarrow> EOS_TCB_t option) option" where
  "HandleTimeout_loop h head current =
     (if current \<noteq> head then
        (case h current of
           None \<Rightarrow> None
         | Some c \<Rightarrow> HandleTimeout_loop (h(current := Some (HandleTimeout_body c))) head (nxt c))
      else Some h)"

declare HandleTimeout_loop.simps [code]

definition EOS_HandleTimeout :: "kernel \<Rightarrow> kernel option" where
  "EOS_HandleTimeout s =
     (case tcbs s (run_ptr s) of
        None \<Rightarrow> None
      | Some r \<Rightarrow>
          (case HandleTimeout_loop (tcbs s) (run_ptr s) (nxt r) of
             None \<Rightarrow> None
           | Some h \<Rightarrow> Some (s\<lparr>tcbs := h\<rparr>)))"

section \<open>Blocking calls\<close>

text \<open>
  A call that suspends the running task does not go on until other tasks and interrupt
  handlers have run and the task is switched in again. \<open>Returned v s\<close> is a call that
  returned \<open>v\<close> in state \<open>s\<close>; \<open>Suspended s\<close> is a call still inside its wait loop, the task
  suspended in state \<open>s\<close>. What happens between one suspension and the next instruction of
  the task is a function on the kernel state; a blocking call takes the list of them, one
  for each time the task is switched in again.
\<close>

datatype 'a outcome = Returned 'a kernel | Suspended kernel

primrec state_of :: "'a outcome \<Rightarrow> kernel" where
  "state_of (Returned v s) = s"
| "state_of (Suspended s) = s"

section \<open>Semaphores (eos_semaphore.c)\<close>

text \<open>One turn of the loop \<open>while (1)\<close> of \<open>EOS_SemaphoreAcquire\<close>, up to the suspension.\<close>

definition SemaphoreAcquire_iter :: "addr \<Rightarrow> kernel \<Rightarrow> EOS_status_t outcome option" where
  "SemaphoreAcquire_iter semaphore s =
     (case sems s semaphore of
        None \<Rightarrow> None
      | Some m \<Rightarrow>
          if s_count m > 0 then
            Some (Returned EOS_OK (EOS_ExitCritical
              (s\<lparr>sems := (sems s)(semaphore := Some (m\<lparr>s_count := s_count m - 1\<rparr>))\<rparr>)))
          else
            (case tcbs s (run_ptr s) of
               None \<Rightarrow> None
             | Some r \<Rightarrow>
                 Some (Suspended (EOS_Suspend (EOS_ExitCritical
                   (s\<lparr>tcbs := (tcbs s)(run_ptr s := Some (r\<lparr>blocked := semaphore\<rparr>))\<rparr>))))))"

text \<open>The loop from a suspension on: \<open>EOS_EnterCritical\<close> (line 50), then the next turn.\<close>

fun SemaphoreAcquire_wait ::
  "addr \<Rightarrow> (kernel \<Rightarrow> kernel) list \<Rightarrow> kernel \<Rightarrow> EOS_status_t outcome option" where
  "SemaphoreAcquire_wait semaphore [] s = Some (Suspended s)"
| "SemaphoreAcquire_wait semaphore (e # es) s =
     (case SemaphoreAcquire_iter semaphore (EOS_EnterCritical (e s)) of
        Some (Suspended s1) \<Rightarrow> SemaphoreAcquire_wait semaphore es s1
      | r \<Rightarrow> r)"

definition EOS_SemaphoreAcquire ::
  "addr \<Rightarrow> (kernel \<Rightarrow> kernel) list \<Rightarrow> kernel \<Rightarrow> EOS_status_t outcome option" where
  "EOS_SemaphoreAcquire semaphore envs s =
     (case SemaphoreAcquire_iter semaphore (EOS_EnterCritical s) of
        Some (Suspended s1) \<Rightarrow> SemaphoreAcquire_wait semaphore envs s1
      | r \<Rightarrow> r)"

definition EOS_SemaphoreRelease :: "addr \<Rightarrow> kernel \<Rightarrow> (EOS_status_t \<times> kernel) option" where
  "EOS_SemaphoreRelease semaphore s =
     (let s1 = EOS_EnterCritical s
      in (case sems s1 semaphore of
            None \<Rightarrow> None
          | Some m \<Rightarrow>
              if s_count m \<ge> s_max_count m then Some (EOS_ERROR, EOS_ExitCritical s1)
              else
                let s2 = s1\<lparr>sems := (sems s1)(semaphore := Some (m\<lparr>s_count := s_count m + 1\<rparr>))\<rparr>
                in (case EOS_TaskUnblock semaphore s2 of
                      None \<Rightarrow> None
                    | Some s3 \<Rightarrow> Some (EOS_OK, EOS_ExitCritical s3))))"

text \<open>\<open>EOS_SemaphoreNew\<close>; the argument \<open>semaphore\<close> is the result of \<open>malloc\<close>.\<close>

definition EOS_SemaphoreNew :: "8 word \<Rightarrow> addr \<Rightarrow> kernel \<Rightarrow> addr \<times> kernel" where
  "EOS_SemaphoreNew count semaphore s =
     (if semaphore = NULL then (NULL, s)
      else (semaphore,
            s\<lparr>sems := (sems s)(semaphore :=
                 Some \<lparr> s_count = ucast count, s_max_count = ucast count \<rparr>)\<rparr>))"

section \<open>Queues (eos_queue.c)\<close>

text \<open>
  \<open>EOS_QueueCreate\<close>; \<open>sz\<close> is the argument \<open>size\<close>, \<open>queue\<close> and \<open>buffer\<close> are the results
  of the two calls of \<open>malloc\<close> and \<open>mem\<close> is what the fresh buffer holds.
\<close>

definition EOS_QueueCreate ::
  "32 word \<Rightarrow> 32 word \<Rightarrow> addr \<Rightarrow> addr \<Rightarrow> (nat \<Rightarrow> 8 word) \<Rightarrow> kernel \<Rightarrow> addr \<times> kernel" where
  "EOS_QueueCreate sz item_size queue buffer mem s =
     (if queue = NULL then (NULL, s)
      else if buffer = NULL then (NULL, s)
      else (queue,
            s\<lparr>queues := (queues s)(queue :=
                 Some \<lparr> q_buffer = mem, q_head = 0, q_tail = 0, q_size = sz,
                        q_item_size = item_size, q_count = 0 \<rparr>)\<rparr>))"

text \<open>
  Lines 113-121 of \<open>EOS_QueueGet\<close>: copy the item out, advance \<open>head\<close>, wake a waiter. The
  bytes written to \<open>item\<close> are part of the returned value. The remainder by a \<open>size\<close> of
  zero is undefined and gives no result.
\<close>

definition QueueGet_take ::
  "addr \<Rightarrow> kernel \<Rightarrow> (EOS_status_t \<times> 8 word list option) outcome option" where
  "QueueGet_take queue s =
     (case queues s queue of
        None \<Rightarrow> None
      | Some q \<Rightarrow>
          if q_size q = 0 then None
          else
            let src = unat (q_head q * q_item_size q);
                item = map (\<lambda>i. q_buffer q (src + i)) [0..<unat (q_item_size q)];
                q1 = q\<lparr>q_head := (q_head q + 1) mod q_size q\<rparr>;
                q2 = q1\<lparr>q_count := q_count q1 - 1\<rparr>;
                s1 = s\<lparr>queues := (queues s)(queue := Some q2)\<rparr>
            in (case EOS_TaskUnblock queue s1 of
                  None \<Rightarrow> None
                | Some s2 \<Rightarrow> Some (Returned (EOS_OK, Some item) (EOS_ExitCritical s2))))"

text \<open>
  The test of the loop \<open>while (queue->count == 0)\<close> (line 99) with its body (lines 101-102)
  up to the suspension, or the rest of the function when the test fails.
\<close>

definition QueueGet_retest ::
  "addr \<Rightarrow> kernel \<Rightarrow> (EOS_status_t \<times> 8 word list option) outcome option" where
  "QueueGet_retest queue s =
     (case queues s queue of
        None \<Rightarrow> None
      | Some q \<Rightarrow>
          if q_count q = 0 then Some (Suspended (EOS_Suspend (EOS_ExitCritical s)))
          else QueueGet_take queue s)"

text \<open>From a suspension (line 96 or 102) on: \<open>EOS_EnterCritical\<close>, then the loop test.\<close>

fun QueueGet_wait ::
  "addr \<Rightarrow> (kernel \<Rightarrow> kernel) list \<Rightarrow> kernel \<Rightarrow> (EOS_status_t \<times> 8 word list option) outcome option" where
  "QueueGet_wait queue [] s = Some (Suspended s)"
| "QueueGet_wait queue (e # es) s =
     (case QueueGet_retest queue (EOS_EnterCritical (e s)) of
        Some (Suspended s1) \<Rightarrow> QueueGet_wait queue es s1
      | r \<Rightarrow> r)"

definition EOS_QueueGet ::
  "addr \<Rightarrow> EOS_block_status_t \<Rightarrow> (kernel \<Rightarrow> kernel) list \<Rightarrow> kernel
     \<Rightarrow> (EOS_status_t \<times> 8 word list option) outcome option" where
  "EOS_QueueGet queue block envs s =
     (let s1 = EOS_EnterCritical s
      in (case queues s1 queue of
            None \<Rightarrow> None
          | Some q \<Rightarrow>
              if q_count q = 0 then
                (if block = EOS_BLOCK then
                   (case tcbs s1 (run_ptr s1) of
                      None \<Rightarrow> None
                    | Some r \<Rightarrow>
                        QueueGet_wait queue envs (EOS_Suspend (EOS_ExitCritical
                          (s1\<lparr>tcbs := (tcbs s1)(run_ptr s1 := Some (r\<lparr>blocked := queue\<rparr>))\<rparr>))))
                 else Some (Returned (EOS_BLOCKED, None) (EOS_ExitCritical s1)))
              else QueueGet_take queue s1))"

text \<open>
  Lines 166-174 of \<open>EOS_QueuePut\<close>; \<open>item\<close> is the memory the argument points at, by byte
  offset.
\<close>

definition QueuePut_store :: "addr \<Rightarrow> (nat \<Rightarrow> 8 word) \<Rightarrow> kernel \<Rightarrow> EOS_status_t outcome option" where
  "QueuePut_store queue item s =
     (case queues s queue of
        None \<Rightarrow> None
      | Some q \<Rightarrow>
          if q_size q = 0 then None
          else
            let dest = unat (q_tail q * q_item_size q);
                q1 = q\<lparr>q_buffer := (\<lambda>a. if dest \<le> a \<and> a < dest + unat (q_item_size q)
                                         then item (a - dest) else q_buffer q a)\<rparr>;
                q2 = q1\<lparr>q_tail := (q_tail q1 + 1) mod q_size q1\<rparr>;
                q3 = q2\<lparr>q_count := q_count q2 + 1\<rparr>;
                s1 = s\<lparr>queues := (queues s)(queue := Some q3)\<rparr>
            in (case EOS_TaskUnblock queue s1 of
                  None \<Rightarrow> None
                | Some s2 \<Rightarrow> Some (Returned EOS_OK (EOS_ExitCritical s2))))"

definition QueuePut_retest :: "addr \<Rightarrow> (nat \<Rightarrow> 8 word) \<Rightarrow> kernel \<Rightarrow> EOS_status_t outcome option" where
  "QueuePut_retest queue item s =
     (case queues s queue of
        None \<Rightarrow> None
      | Some q \<Rightarrow>
          if q_count q = q_size q then Some (Suspended (EOS_Suspend (EOS_ExitCritical s)))
          else QueuePut_store queue item s)"

fun QueuePut_wait ::
  "addr \<Rightarrow> (nat \<Rightarrow> 8 word) \<Rightarrow> (kernel \<Rightarrow> kernel) list \<Rightarrow> kernel \<Rightarrow> EOS_status_t outcome option" where
  "QueuePut_wait queue item [] s = Some (Suspended s)"
| "QueuePut_wait queue item (e # es) s =
     (case QueuePut_retest queue item (EOS_EnterCritical (e s)) of
        Some (Suspended s1) \<Rightarrow> QueuePut_wait queue item es s1
      | r \<Rightarrow> r)"

definition EOS_QueuePut ::
  "addr \<Rightarrow> (nat \<Rightarrow> 8 word) \<Rightarrow> EOS_block_status_t \<Rightarrow> (kernel \<Rightarrow> kernel) list \<Rightarrow> kernel
     \<Rightarrow> EOS_status_t outcome option" where
  "EOS_QueuePut queue item block envs s =
     (let s1 = EOS_EnterCritical s
      in (case queues s1 queue of
            None \<Rightarrow> None
          | Some q \<Rightarrow>
              if q_count q = q_size q then
                (if block = EOS_BLOCK then
                   (case tcbs s1 (run_ptr s1) of
                      None \<Rightarrow> None
                    | Some r \<Rightarrow>
                        QueuePut_wait queue item envs (EOS_Suspend (EOS_ExitCritical
                          (s1\<lparr>tcbs := (tcbs s1)(run_ptr s1 := Some (r\<lparr>blocked := queue\<rparr>))\<rparr>))))
                 else Some (Returned EOS_BLOCKED (EOS_ExitCritical s1)))
              else QueuePut_store queue item s1))"

section \<open>The ring of task control blocks\<close>

text \<open>
  \<open>path h p xs q\<close>: following \<open>next\<close> from \<open>p\<close> passes through the blocks \<open>xs\<close>, in this
  order, and arrives at \<open>q\<close>. \<open>ring h xs\<close>: the blocks \<open>xs\<close> form a circular list without
  repetition, none of them at the null address.
\<close>

fun path :: "(addr \<Rightarrow> EOS_TCB_t option) \<Rightarrow> addr \<Rightarrow> addr list \<Rightarrow> addr \<Rightarrow> bool" where
  "path h p [] q = (p = q)"
| "path h p (x # xs) q =
     (p = x \<and> (case h x of None \<Rightarrow> False | Some t \<Rightarrow> path h (nxt t) xs q))"

definition ring :: "(addr \<Rightarrow> EOS_TCB_t option) \<Rightarrow> addr list \<Rightarrow> bool" where
  "ring h xs = (xs \<noteq> [] \<and> distinct xs \<and> NULL \<notin> set xs \<and> path h (hd xs) xs (hd xs))"

text \<open>
  Reading a field through an address: \<open>waits h item a\<close> when the block at \<open>a\<close> has
  \<open>blocked == item\<close>, and \<open>prio h a\<close> for its priority.
\<close>

definition waits :: "(addr \<Rightarrow> EOS_TCB_t option) \<Rightarrow> addr \<Rightarrow> addr \<Rightarrow> bool" where
  "waits h item a = (case h a of None \<Rightarrow> False | Some t \<Rightarrow> blocked t = item)"

definition prio :: "(addr \<Rightarrow> EOS_TCB_t option) \<Rightarrow> addr \<Rightarrow> 8 word" where
  "prio h a = (case h a of None \<Rightarrow> 0 | Some t \<Rightarrow> priority t)"

text \<open>The body of the loop of \<open>EOS_TaskUnblock\<close> run on the blocks of a list, in order.\<close>

fun TaskUnblock_visit ::
  "(addr \<Rightarrow> EOS_TCB_t option) \<Rightarrow> addr \<Rightarrow> addr list \<Rightarrow> addr \<Rightarrow> addr option" where
  "TaskUnblock_visit h item [] best_ptr = Some best_ptr"
| "TaskUnblock_visit h item (x # xs) best_ptr =
     (case h x of
        None \<Rightarrow> None
      | Some t \<Rightarrow>
          (case TaskUnblock_pick h item x t best_ptr of
             None \<Rightarrow> None
           | Some best \<Rightarrow> TaskUnblock_visit h item xs best))"

section \<open>Example states\<close>

text \<open>
  \<open>three_tasks\<close>: the ring idle (at 32), A (at 64, low priority), B (at 96, medium priority);
  A is running and B waits on the object at address 100.
\<close>

definition three_tasks :: kernel where
  "three_tasks =
     \<lparr> tcbs = (\<lambda>a. None)
         (32 := Some \<lparr> sp = 124, blocked = 0, nxt = 64, timeOut = 0, priority = 0, paused = 0 \<rparr>,
          64 := Some \<lparr> sp = 1000, blocked = 0, nxt = 96, timeOut = 0, priority = 1, paused = 0 \<rparr>,
          96 := Some \<lparr> sp = 2000, blocked = 100, nxt = 32, timeOut = 0, priority = 2, paused = 0 \<rparr>),
       run_ptr = 64, primask = True, pendsv = False,
       sems = (\<lambda>a. None), queues = (\<lambda>a. None) \<rparr>"

text \<open>
  \<open>sleepers\<close>: the ring idle (at 32), A (at 64), B (at 96), C (at 128) with idle running;
  A sleeps with one tick left, B sleeps with five ticks left and is paused, C sleeps with
  three ticks left. The semaphore at 100 has count 0 of at most 1.
\<close>

definition sleepers :: kernel where
  "sleepers =
     \<lparr> tcbs = (\<lambda>a. None)
         (32 := Some \<lparr> sp = 124, blocked = 0, nxt = 64, timeOut = 0, priority = 0, paused = 0 \<rparr>,
          64 := Some \<lparr> sp = 1000, blocked = 2, nxt = 96, timeOut = 1, priority = 1, paused = 0 \<rparr>,
          96 := Some \<lparr> sp = 2000, blocked = 2, nxt = 128, timeOut = 5, priority = 2, paused = 1 \<rparr>,
          128 := Some \<lparr> sp = 3000, blocked = 2, nxt = 32, timeOut = 3, priority = 2, paused = 0 \<rparr>),
       run_ptr = 32, primask = True, pendsv = False,
       sems = (\<lambda>a. None)(100 := Some \<lparr> s_count = 0, s_max_count = 1 \<rparr>),
       queues = (\<lambda>a. None) \<rparr>"

text \<open>The semaphore at an address is one created with a count of zero.\<close>

definition zero_semaphore :: "addr \<Rightarrow> kernel \<Rightarrow> bool" where
  "zero_semaphore semaphore s = (sems s semaphore = Some \<lparr> s_count = 0, s_max_count = 0 \<rparr>)"

section \<open>The queue predicate\<close>

text \<open>
  \<open>count\<close> lies in \<open>[0, size]\<close> and \<open>head\<close> and \<open>tail\<close> lie in \<open>[0, size)\<close>. A state is in
  order for a queue when it holds the queue, the predicate holds of it, and the task control
  blocks form a ring through \<open>run_ptr\<close>.
\<close>

definition queue_ok :: "EOS_queue_t \<Rightarrow> bool" where
  "queue_ok q = (q_count q \<le> q_size q \<and> q_head q < q_size q \<and> q_tail q < q_size q)"

definition queue_state_ok :: "addr \<Rightarrow> kernel \<Rightarrow> bool" where
  "queue_state_ok queue s =
     ((\<exists>q. queues s queue = Some q \<and> queue_ok q) \<and> (\<exists>rest. ring (tcbs s) (run_ptr s # rest)))"

text \<open>
  \<open>queue_demo\<close>: the ring of \<open>three_tasks\<close> with a queue at address 200 of two slots of one
  byte that holds one item, the byte 7.
\<close>

definition queue_demo :: kernel where
  "queue_demo = three_tasks\<lparr>queues := (\<lambda>a. None)
     (200 := Some \<lparr> q_buffer = (\<lambda>a. if a = 0 then 7 else 0), q_head = 0, q_tail = 1,
                    q_size = 2, q_item_size = 1, q_count = 1 \<rparr>)\<rparr>"

section \<open>A wake-up that finds nothing to take\<close>

text \<open>
  \<open>woken_unserved\<close>: while the caller is suspended, another task clears the caller's \<open>blocked\<close>
  field, as \<open>EOS_TaskUnblock\<close> on its wait token does, and when the caller is switched in again
  the semaphore or queue is as before (a third task was served first).
  \<open>running_blocked\<close> reads the \<open>blocked\<close> field of the running task.
\<close>

definition woken_unserved :: "kernel \<Rightarrow> kernel" where
  "woken_unserved s =
     (case tcbs s (run_ptr s) of
        None \<Rightarrow> s
      | Some r \<Rightarrow> s\<lparr>tcbs := (tcbs s)(run_ptr s := Some (r\<lparr>blocked := 0\<rparr>))\<rparr>)"

definition running_blocked :: "kernel \<Rightarrow> addr option" where
  "running_blocked s = map_option blocked (tcbs s (run_ptr s))"

text \<open>
  \<open>empty_demo\<close>: the ring of \<open>three_tasks\<close> with a semaphore at address 100 whose count is 0
  and an empty queue at address 200.
\<close>

definition empty_demo :: kernel where
  "empty_demo = three_tasks\<lparr>
     sems := (\<lambda>a. None)(100 := Some \<lparr> s_count = 0, s_max_count = 1 \<rparr>),
     queues := (\<lambda>a. None)
       (200 := Some \<lparr> q_buffer = (\<lambda>a. 0), q_head = 0, q_tail = 0,
                      q_size = 2, q_item_size = 1, q_count = 0 \<rparr>)\<rparr>"

section \<open>Sequences of thread creations\<close>

text \<open>\<open>follow h n p\<close>: the block reached from \<open>p\<close> by \<open>n\<close> steps along \<open>next\<close>.\<close>

fun follow :: "(addr \<Rightarrow> EOS_TCB_t option) \<Rightarrow> nat \<Rightarrow> addr \<Rightarrow> addr option" where
  "follow h 0 p = Some p"
| "follow h (Suc n) p = (case h p of None \<Rightarrow> None | Some t \<Rightarrow> follow h n (nxt t))"

text \<open>
  The arguments of one call of \<open>EOS_ThreadNew\<close>, with the two results of \<open>malloc\<close>, and a
  sequence of calls run in order; the result lists the returned handles.
\<close>

record ThreadNew_args =
  a_function :: addr
  a_priority :: "32 word"
  a_task_stack :: addr
  a_stack_size :: "32 word"
  a_use_fpu :: EOS_status_t
  a_control_block :: addr
  a_stack_mem :: addr

definition ThreadNew_call :: "ThreadNew_args \<Rightarrow> kernel \<Rightarrow> (addr \<times> kernel) option" where
  "ThreadNew_call c s =
     EOS_ThreadNew (a_function c) (a_priority c) (a_task_stack c) (a_stack_size c) (a_use_fpu c)
       (a_control_block c) (a_stack_mem c) s"

fun ThreadNew_calls :: "ThreadNew_args list \<Rightarrow> kernel \<Rightarrow> (addr list \<times> kernel) option" where
  "ThreadNew_calls [] s = Some ([], s)"
| "ThreadNew_calls (c # cs) s =
     (case ThreadNew_call c s of
        None \<Rightarrow> None
      | Some (h, s1) \<Rightarrow>
          (case ThreadNew_calls cs s1 of
             None \<Rightarrow> None
           | Some (hs, s2) \<Rightarrow> Some (h # hs, s2)))"

text \<open>\<open>demo_calls\<close>: two creations, control blocks allocated at 64 and 96.\<close>

definition demo_calls :: "ThreadNew_args list" where
  "demo_calls =
     [\<lparr> a_function = 1000, a_priority = 1, a_task_stack = NULL, a_stack_size = 64,
         a_use_fpu = EOS_NO_FPU, a_control_block = 64, a_stack_mem = 2000 \<rparr>,
      \<lparr> a_function = 1100, a_priority = 2, a_task_stack = 3000, a_stack_size = 128,
         a_use_fpu = EOS_USE_FPU, a_control_block = 96, a_stack_mem = NULL \<rparr>]"

section \<open>A task that sleeps while another is runnable\<close>

text \<open>\<open>two_created\<close>: the state after the two creations of \<open>demo_calls\<close>.\<close>

definition two_created :: kernel where
  "two_created =
     (case ThreadNew_calls demo_calls kernel_init of None \<Rightarrow> kernel_init | Some (hs, s) \<Rightarrow> s)"

text \<open>
  \<open>delay_demo\<close>: from \<open>two_created\<close>, the task at 96 is paused, the scheduler runs (and
  elects the task at 64), the task at 96 is resumed, and the running task at 64 calls
  \<open>EOS_Delay(5)\<close>.
\<close>

definition delay_demo :: "kernel option" where
  "delay_demo =
     (case EOS_Pause 96 two_created of
        None \<Rightarrow> None
      | Some (st1, s1) \<Rightarrow>
          (case EOS_scheduler s1 of
             None \<Rightarrow> None
           | Some s2 \<Rightarrow>
               (case EOS_Resume 96 s2 of
                  None \<Rightarrow> None
                | Some (st3, s3) \<Rightarrow> EOS_Delay 5 s3)))"

text \<open>
  \<open>pause_demo\<close>: as \<open>delay_demo\<close>, with \<open>EOS_Pause(run_ptr)\<close> called while the idle task still
  runs, before the scheduler runs for the first time.
\<close>

definition pause_demo :: "kernel option" where
  "pause_demo =
     (case EOS_Pause 96 two_created of
        None \<Rightarrow> None
      | Some (st1, s1) \<Rightarrow>
          (case EOS_Pause (run_ptr s1) s1 of
             None \<Rightarrow> None
           | Some (st2, s2) \<Rightarrow>
               (case EOS_scheduler s2 of
                  None \<Rightarrow> None
                | Some s3 \<Rightarrow>
                    (case EOS_Resume 96 s3 of
                       None \<Rightarrow> None
                     | Some (st4, s4) \<Rightarrow> EOS_Delay 5 s4))))"

section \<open>Paths and rings\<close>

lemma path_append: "path h p (xs @ ys) q = (\<exists>m. path h p xs m \<and> path h m ys q)"
  by (induction xs arbitrary: p) (auto split: option.splits)

lemma path_upd: "a \<notin> set xs \<Longrightarrow> path (h(a := v)) p xs q = path h p xs q"
  by (induction xs arbitrary: p) (auto split: option.splits)

lemma path_dom: "path h p xs q \<Longrightarrow> x \<in> set xs \<Longrightarrow> \<exists>t. h x = Some t"
  by (induction xs arbitrary: p) (auto split: option.splits)

lemma path_nxt_eq:
  "\<forall>x\<in>set xs. map_option nxt (h' x) = map_option nxt (h x) \<Longrightarrow> path h' p xs q = path h p xs q"
proof (induction xs arbitrary: p)
  case Nil
  then show ?case by simp
next
  case (Cons x xs)
  then have "map_option nxt (h' x) = map_option nxt (h x)" by simp
  with Cons show ?case by (cases "h x"; cases "h' x") auto
qed

lemma path_hd: "path h p xs q \<Longrightarrow> xs \<noteq> [] \<Longrightarrow> hd xs = p"
  by (cases xs) auto

lemma ring_rotate:
  assumes "ring h (xs @ ys)" "xs \<noteq> []" "ys \<noteq> []"
  shows "ring h (ys @ xs)"
proof -
  from assms have p: "path h (hd xs) (xs @ ys) (hd xs)" by (simp add: ring_def)
  then obtain m where m: "path h (hd xs) xs m" "path h m ys (hd xs)"
    by (auto simp: path_append)
  with assms(3) have "hd ys = m" by (simp add: path_hd)
  with m assms show ?thesis
    by (auto simp: ring_def path_append)
qed

section \<open>The loops on a ring\<close>

lemma ThreadNew_walk_path:
  "path h temp (x # xs) r \<Longrightarrow> r \<notin> set xs \<Longrightarrow> ThreadNew_walk h r temp = Some (last (x # xs))"
proof (induction xs arbitrary: x temp)
  case Nil
  then show ?case
    by (subst ThreadNew_walk.simps) (auto split: option.splits)
next
  case (Cons y ys)
  from Cons.prems obtain t where t: "temp = x" "h x = Some t" "path h (nxt t) (y # ys) r"
    by (auto split: option.splits)
  with Cons.prems have "nxt t = y" "y \<noteq> r" by auto
  moreover from Cons.IH [OF t(3)] Cons.prems have "ThreadNew_walk h r (nxt t) = Some (last (y # ys))"
    by simp
  ultimately show ?case using t
    by (subst ThreadNew_walk.simps) simp
qed

lemma HandleTimeout_loop_path:
  "path h current xs head \<Longrightarrow> head \<notin> set xs \<Longrightarrow> distinct xs \<Longrightarrow>
   HandleTimeout_loop h head current =
     Some (\<lambda>a. if a \<in> set xs then map_option HandleTimeout_body (h a) else h a)"
proof (induction xs arbitrary: h current)
  case Nil
  then show ?case
    by (subst HandleTimeout_loop.simps) simp
next
  case (Cons x xs)
  from Cons.prems obtain c where c: "current = x" "h x = Some c" "path h (nxt c) xs head"
    by (auto split: option.splits)
  let ?h = "h(x := Some (HandleTimeout_body c))"
  from c Cons.prems have "path ?h (nxt c) xs head"
    by (simp add: path_upd)
  moreover from Cons.prems have "head \<notin> set xs" "distinct xs"
    by simp_all
  ultimately have "HandleTimeout_loop ?h head (nxt c) =
          Some (\<lambda>a. if a \<in> set xs then map_option HandleTimeout_body (?h a) else ?h a)"
    by (rule Cons.IH)
  moreover have "(\<lambda>a. if a \<in> set xs then map_option HandleTimeout_body (?h a) else ?h a) =
          (\<lambda>a. if a \<in> set (x # xs) then map_option HandleTimeout_body (h a) else h a)"
    using Cons.prems c by (auto simp: fun_eq_iff)
  ultimately show ?case using c Cons.prems
    by (subst HandleTimeout_loop.simps) simp
qed

lemma TaskUnblock_loop_path:
  "path h tmp (x # xs) start \<Longrightarrow> start \<notin> set xs \<Longrightarrow>
   TaskUnblock_loop h item start tmp best = TaskUnblock_visit h item (x # xs) best"
proof (induction xs arbitrary: x tmp best)
  case Nil
  then show ?case
    by (subst TaskUnblock_loop.simps) (auto split: option.splits)
next
  case (Cons y ys)
  from Cons.prems obtain t where t: "tmp = x" "h x = Some t" "path h (nxt t) (y # ys) start"
    by (auto split: option.splits)
  with Cons.prems have y: "nxt t = y" "y \<noteq> start" by auto
  from Cons.prems have "start \<notin> set ys" by simp
  with t(3) have "\<And>b. TaskUnblock_loop h item start (nxt t) b = TaskUnblock_visit h item (y # ys) b"
    by (rule Cons.IH)
  with t y show ?case
    by (subst TaskUnblock_loop.simps) (simp split: option.splits)
qed

text \<open>What the visit of a list returns, for any starting candidate.\<close>

lemma TaskUnblock_visit_best:
  assumes "\<forall>x\<in>set xs. \<exists>t. h x = Some t" and "NULL \<notin> set xs"
    and "best = NULL \<or> (\<exists>b. h best = Some b)"
  shows "\<exists>w. TaskUnblock_visit h item xs best = Some w \<and>
    ((w = best \<and> (\<forall>y\<in>set xs. waits h item y \<longrightarrow> best \<noteq> NULL \<and> prio h y \<le> prio h best)) \<or>
     (\<exists>pre post. xs = pre @ w # post \<and> waits h item w \<and>
        (best \<noteq> NULL \<longrightarrow> prio h best < prio h w) \<and>
        (\<forall>y\<in>set pre. waits h item y \<longrightarrow> prio h y < prio h w) \<and>
        (\<forall>y\<in>set post. waits h item y \<longrightarrow> prio h y \<le> prio h w)))"
  using assms
proof (induction xs arbitrary: best)
  case Nil
  then show ?case by simp
next
  case (Cons x xs)
  from Cons.prems obtain t where t: "h x = Some t" by auto
  from Cons.prems have x0: "x \<noteq> NULL" by auto
  have "\<exists>b'. TaskUnblock_pick h item x t best = Some b' \<and>
      ((b' = x \<and> blocked t = item \<and> (best = NULL \<or> prio h best < priority t)) \<or>
       (b' = best \<and> (blocked t = item \<longrightarrow> best \<noteq> NULL \<and> priority t \<le> prio h best)))"
  proof (cases "best = NULL")
    case True
    then show ?thesis by (simp add: TaskUnblock_pick_def)
  next
    case False
    with Cons.prems(3) obtain b where "h best = Some b" by auto
    with False show ?thesis by (simp add: TaskUnblock_pick_def prio_def not_less)
  qed
  then obtain b' where b': "TaskUnblock_pick h item x t best = Some b'"
    and b'_cases: "(b' = x \<and> blocked t = item \<and> (best = NULL \<or> prio h best < priority t)) \<or>
       (b' = best \<and> (blocked t = item \<longrightarrow> best \<noteq> NULL \<and> priority t \<le> prio h best))"
    by blast
  have ok: "b' = NULL \<or> (\<exists>b. h b' = Some b)"
    using b'_cases Cons.prems(3) t by auto
  from Cons.prems have "\<forall>x\<in>set xs. \<exists>t. h x = Some t" "NULL \<notin> set xs" by auto
  from Cons.IH [OF this ok] obtain w where
    w: "TaskUnblock_visit h item xs b' = Some w" and
    w_cases: "(w = b' \<and> (\<forall>y\<in>set xs. waits h item y \<longrightarrow> b' \<noteq> NULL \<and> prio h y \<le> prio h b')) \<or>
     (\<exists>pre post. xs = pre @ w # post \<and> waits h item w \<and>
        (b' \<noteq> NULL \<longrightarrow> prio h b' < prio h w) \<and>
        (\<forall>y\<in>set pre. waits h item y \<longrightarrow> prio h y < prio h w) \<and>
        (\<forall>y\<in>set post. waits h item y \<longrightarrow> prio h y \<le> prio h w))"
    by blast
  have eq: "TaskUnblock_visit h item (x # xs) best = Some w"
    using t b' w by simp
  have px: "prio h x = priority t" "waits h item x = (blocked t = item)"
    using t by (simp_all add: prio_def waits_def)
  from b'_cases show ?case
  proof
    assume A: "b' = x \<and> blocked t = item \<and> (best = NULL \<or> prio h best < priority t)"
    from w_cases show ?thesis
    proof
      assume "w = b' \<and> (\<forall>y\<in>set xs. waits h item y \<longrightarrow> b' \<noteq> NULL \<and> prio h y \<le> prio h b')"
      with A px have "x # xs = [] @ w # xs \<and> waits h item w \<and>
        (best \<noteq> NULL \<longrightarrow> prio h best < prio h w) \<and>
        (\<forall>y\<in>set []. waits h item y \<longrightarrow> prio h y < prio h w) \<and>
        (\<forall>y\<in>set xs. waits h item y \<longrightarrow> prio h y \<le> prio h w)"
        by auto
      with eq show ?thesis by blast
    next
      assume "\<exists>pre post. xs = pre @ w # post \<and> waits h item w \<and>
        (b' \<noteq> NULL \<longrightarrow> prio h b' < prio h w) \<and>
        (\<forall>y\<in>set pre. waits h item y \<longrightarrow> prio h y < prio h w) \<and>
        (\<forall>y\<in>set post. waits h item y \<longrightarrow> prio h y \<le> prio h w)"
      then obtain pre post where P: "xs = pre @ w # post" "waits h item w"
        "b' \<noteq> NULL \<longrightarrow> prio h b' < prio h w"
        "\<forall>y\<in>set pre. waits h item y \<longrightarrow> prio h y < prio h w"
        "\<forall>y\<in>set post. waits h item y \<longrightarrow> prio h y \<le> prio h w"
        by blast
      with A x0 px have "x # xs = (x # pre) @ w # post \<and> waits h item w \<and>
        (best \<noteq> NULL \<longrightarrow> prio h best < prio h w) \<and>
        (\<forall>y\<in>set (x # pre). waits h item y \<longrightarrow> prio h y < prio h w) \<and>
        (\<forall>y\<in>set post. waits h item y \<longrightarrow> prio h y \<le> prio h w)"
        by auto
      with eq show ?thesis by blast
    qed
  next
    assume B: "b' = best \<and> (blocked t = item \<longrightarrow> best \<noteq> NULL \<and> priority t \<le> prio h best)"
    from w_cases show ?thesis
    proof
      assume "w = b' \<and> (\<forall>y\<in>set xs. waits h item y \<longrightarrow> b' \<noteq> NULL \<and> prio h y \<le> prio h b')"
      with B px have "w = best \<and> (\<forall>y\<in>set (x # xs). waits h item y \<longrightarrow> best \<noteq> NULL \<and> prio h y \<le> prio h best)"
        by auto
      with eq show ?thesis by blast
    next
      assume "\<exists>pre post. xs = pre @ w # post \<and> waits h item w \<and>
        (b' \<noteq> NULL \<longrightarrow> prio h b' < prio h w) \<and>
        (\<forall>y\<in>set pre. waits h item y \<longrightarrow> prio h y < prio h w) \<and>
        (\<forall>y\<in>set post. waits h item y \<longrightarrow> prio h y \<le> prio h w)"
      then obtain pre post where P: "xs = pre @ w # post" "waits h item w"
        "b' \<noteq> NULL \<longrightarrow> prio h b' < prio h w"
        "\<forall>y\<in>set pre. waits h item y \<longrightarrow> prio h y < prio h w"
        "\<forall>y\<in>set post. waits h item y \<longrightarrow> prio h y \<le> prio h w"
        by blast
      with B px have "x # xs = (x # pre) @ w # post \<and> waits h item w \<and>
        (best \<noteq> NULL \<longrightarrow> prio h best < prio h w) \<and>
        (\<forall>y\<in>set (x # pre). waits h item y \<longrightarrow> prio h y < prio h w) \<and>
        (\<forall>y\<in>set post. waits h item y \<longrightarrow> prio h y \<le> prio h w)"
        by auto
      with eq show ?thesis by blast
    qed
  qed
qed

lemma ring_run_parts:
  assumes "ring h (r # rest)"
  shows "\<exists>t. h r = Some t \<and> path h (nxt t) rest r" and "r \<notin> set rest" and "distinct rest"
    and "NULL \<notin> set rest" and "r \<noteq> NULL"
  using assms by (auto simp: ring_def split: option.splits)

lemma TaskUnblock_loop_ring:
  assumes "ring h (r # rest)" and "h r = Some t"
  shows "TaskUnblock_loop h item r (nxt t) best =
           TaskUnblock_visit h item (if rest = [] then [r] else rest) best"
proof (cases rest)
  case Nil
  with assms have "path h (nxt t) [r] r" "r \<notin> set []"
    by (auto simp: ring_def)
  then have "TaskUnblock_loop h item r (nxt t) best = TaskUnblock_visit h item [r] best"
    by (rule TaskUnblock_loop_path)
  with Nil show ?thesis by simp
next
  case (Cons y ys)
  with assms have "path h (nxt t) (y # ys) r" "r \<notin> set ys"
    by (auto simp: ring_def)
  then have "TaskUnblock_loop h item r (nxt t) best = TaskUnblock_visit h item (y # ys) best"
    by (rule TaskUnblock_loop_path)
  with Cons show ?thesis by simp
qed



section \<open>Timeouts\<close>

text \<open>
  C6. On a ring, \<open>EOS_HandleTimeout\<close> returns and changes nothing but task control blocks; the
  block of \<open>running\<close> and every block outside the ring are unchanged; every other block of
  the ring that is timed out, not paused and has a timeout above zero has the timeout
  decremented by one and \<open>blocked\<close> cleared exactly when the new timeout is zero; every other
  block of the ring for which one of the three conditions fails is unchanged.
\<close>

theorem HandleTimeout_ring:
  assumes "ring (tcbs s) (run_ptr s # rest)"
  shows "\<exists>s'. EOS_HandleTimeout s = Some s' \<and> s' = s\<lparr>tcbs := tcbs s'\<rparr> \<and>
    (\<forall>a. a \<notin> set rest \<longrightarrow> tcbs s' a = tcbs s a) \<and>
    (\<forall>a\<in>set rest. \<exists>t. tcbs s a = Some t \<and>
       tcbs s' a = Some
         (if blocked t = EOS_TIMED_OUT \<and> paused t = 0 \<and> timeOut t > 0
          then t\<lparr>timeOut := timeOut t - 1,
                 blocked := (if timeOut t - 1 = 0 then 0 else blocked t)\<rparr>
          else t))"
proof -
  let ?h = "tcbs s" and ?r = "run_ptr s"
  from ring_run_parts [OF assms] obtain r where
    r: "?h ?r = Some r" "path ?h (nxt r) rest ?r" and
    nr: "?r \<notin> set rest" "distinct rest"
    by blast
  let ?h' = "\<lambda>a. if a \<in> set rest then map_option HandleTimeout_body (?h a) else ?h a"
  from r(2) nr have "HandleTimeout_loop ?h ?r (nxt r) = Some ?h'"
    by (rule HandleTimeout_loop_path)
  with r have res: "EOS_HandleTimeout s = Some (s\<lparr>tcbs := ?h'\<rparr>)"
    by (simp add: EOS_HandleTimeout_def)
  have "\<forall>a\<in>set rest. \<exists>t. ?h a = Some t \<and>
       ?h' a = Some
         (if blocked t = EOS_TIMED_OUT \<and> paused t = 0 \<and> timeOut t > 0
          then t\<lparr>timeOut := timeOut t - 1,
                 blocked := (if timeOut t - 1 = 0 then 0 else blocked t)\<rparr>
          else t)"
  proof
    fix a assume a: "a \<in> set rest"
    with r(2) obtain t where "?h a = Some t" by (blast dest: path_dom)
    with a show "\<exists>t. ?h a = Some t \<and>
       ?h' a = Some
         (if blocked t = EOS_TIMED_OUT \<and> paused t = 0 \<and> timeOut t > 0
          then t\<lparr>timeOut := timeOut t - 1,
                 blocked := (if timeOut t - 1 = 0 then 0 else blocked t)\<rparr>
          else t)"
      by (simp add: HandleTimeout_body_def Let_def)
  qed
  with res show ?thesis by simp
qed

text \<open>
  The theorem at the state \<open>sleepers\<close>: A wakes, the paused B keeps its five ticks, C goes
  from three ticks to two.
\<close>

theorem HandleTimeout_ring_witness:
  "ring (tcbs sleepers) (run_ptr sleepers # [64, 96, 128]) \<and>
   (\<exists>s'. EOS_HandleTimeout sleepers = Some s' \<and>
      tcbs s' 32 = tcbs sleepers 32 \<and>
      tcbs s' 64 = Some \<lparr> sp = 1000, blocked = 0, nxt = 96, timeOut = 0, priority = 1, paused = 0 \<rparr> \<and>
      tcbs s' 96 = tcbs sleepers 96 \<and>
      tcbs s' 128 = Some \<lparr> sp = 3000, blocked = 2, nxt = 32, timeOut = 2, priority = 2, paused = 0 \<rparr>)"
proof -
  have r: "ring (tcbs sleepers) (run_ptr sleepers # [64, 96, 128])"
    by (simp add: sleepers_def ring_def NULL_def)
  from HandleTimeout_ring [OF r] obtain s' where
    s': "EOS_HandleTimeout sleepers = Some s'"
      "\<forall>a. a \<notin> set [64, 96, 128] \<longrightarrow> tcbs s' a = tcbs sleepers a"
      "\<forall>a\<in>set [64, 96, 128]. \<exists>t. tcbs sleepers a = Some t \<and>
       tcbs s' a = Some
         (if blocked t = EOS_TIMED_OUT \<and> paused t = 0 \<and> timeOut t > 0
          then t\<lparr>timeOut := timeOut t - 1,
                 blocked := (if timeOut t - 1 = 0 then 0 else blocked t)\<rparr>
          else t)"
    by blast
  from s'(2) have "tcbs s' 32 = tcbs sleepers 32" by simp
  moreover from s'(3) have "tcbs s' 64 =
      Some \<lparr> sp = 1000, blocked = 0, nxt = 96, timeOut = 0, priority = 1, paused = 0 \<rparr>"
    by (simp add: sleepers_def EOS_TIMED_OUT_def)
  moreover from s'(3) have "tcbs s' 96 = tcbs sleepers 96"
    by (simp add: sleepers_def EOS_TIMED_OUT_def)
  moreover from s'(3) have "tcbs s' 128 =
      Some \<lparr> sp = 3000, blocked = 2, nxt = 32, timeOut = 2, priority = 2, paused = 0 \<rparr>"
    by (simp add: sleepers_def EOS_TIMED_OUT_def)
  ultimately show ?thesis using r s'(1) by blast
qed

section \<open>Semaphore release\<close>

text \<open>On a ring \<open>EOS_TaskUnblock\<close> returns, and it leaves all but the task control blocks
  and the two interrupt flags as they were.\<close>

lemma TaskUnblock_frame:
  "EOS_TaskUnblock item s = Some s' \<Longrightarrow>
   sems s' = sems s \<and> queues s' = queues s \<and> run_ptr s' = run_ptr s"
  by (auto simp: EOS_TaskUnblock_def Let_def EOS_Suspend_def EOS_ExitCritical_def
      split: option.splits if_splits)

lemma TaskUnblock_returns:
  assumes "ring (tcbs s) (run_ptr s # rest)"
  shows "\<exists>s'. EOS_TaskUnblock item s = Some s'"
proof -
  let ?h = "tcbs s" and ?r = "run_ptr s"
  let ?xs = "if rest = [] then [?r] else rest"
  from ring_run_parts [OF assms] obtain r where
    r: "?h ?r = Some r" "path ?h (nxt r) rest ?r" and
    nr: "NULL \<notin> set rest" "?r \<noteq> NULL"
    by blast
  have loop: "TaskUnblock_loop ?h item ?r (nxt r) NULL = TaskUnblock_visit ?h item ?xs NULL"
    using assms r(1) by (rule TaskUnblock_loop_ring)
  have dom: "\<forall>x\<in>set ?xs. \<exists>t. ?h x = Some t"
    using r by (auto dest: path_dom)
  have nn: "NULL \<notin> set ?xs"
    using nr by auto
  from TaskUnblock_visit_best [OF dom nn, of NULL item] obtain w where
    w: "TaskUnblock_visit ?h item ?xs NULL = Some w" and "w = NULL \<or> w \<in> set ?xs"
    by auto
  with dom have "w = NULL \<or> (\<exists>b. ?h w = Some b)" by blast
  then show ?thesis
  proof
    assume "w = NULL"
    with w loop r show ?thesis by (simp add: EOS_TaskUnblock_def)
  next
    assume "\<exists>b. ?h w = Some b"
    then obtain b where "?h w = Some b" ..
    with w loop r show ?thesis
      by (cases "w = NULL") (simp_all add: EOS_TaskUnblock_def Let_def)
  qed
qed

lemma word_succ_unat: "(x :: 'a::len word) < y \<Longrightarrow> unat (x + 1) = unat x + 1"
proof -
  assume "x < y"
  then have "unat x < unat y" by (simp add: word_less_nat_alt)
  moreover have "unat y < 2 ^ LENGTH('a)" by (rule unsigned_less)
  ultimately have "unat x + 1 < 2 ^ LENGTH('a)" by linarith
  then have "unat x + unat (1 :: 'a word) < 2 ^ LENGTH('a)" by simp
  then have "unat (x + 1) = unat x + unat (1 :: 'a word)"
    by (simp only: unat_add_lem)
  then show ?thesis by simp
qed

text \<open>
  C5. For a semaphore with \<open>count \<le> max_count\<close>, on a ring, \<open>EOS_SemaphoreRelease\<close> returns;
  it returns \<open>EOS_ERROR\<close> exactly when \<open>count\<close> equals \<open>max_count\<close> at entry, and then the
  semaphores and the task control blocks are unchanged; otherwise it returns \<open>EOS_OK\<close> and
  \<open>count\<close> has grown by exactly one.
\<close>

theorem SemaphoreRelease_error_iff_full:
  assumes "ring (tcbs s) (run_ptr s # rest)"
    and "sems s semaphore = Some m" and "s_count m \<le> s_max_count m"
  shows "\<exists>st s'. EOS_SemaphoreRelease semaphore s = Some (st, s') \<and>
    (st = EOS_ERROR \<longleftrightarrow> s_count m = s_max_count m) \<and>
    (if s_count m = s_max_count m then sems s' = sems s \<and> tcbs s' = tcbs s
     else st = EOS_OK \<and>
          sems s' = (sems s)(semaphore := Some (m\<lparr>s_count := s_count m + 1\<rparr>)) \<and>
          unat (s_count m + 1) = unat (s_count m) + 1)"
proof (cases "s_count m = s_max_count m")
  case True
  with assms(2) show ?thesis
    by (simp add: EOS_SemaphoreRelease_def EOS_EnterCritical_def EOS_ExitCritical_def)
next
  case False
  with assms(3) have lt: "s_count m < s_max_count m" by simp
  let ?s2 = "(EOS_EnterCritical s)\<lparr>sems := (sems (EOS_EnterCritical s))
                 (semaphore := Some (m\<lparr>s_count := s_count m + 1\<rparr>))\<rparr>"
  from assms(1) have "ring (tcbs ?s2) (run_ptr ?s2 # rest)"
    by (simp add: EOS_EnterCritical_def)
  then obtain s3 where s3: "EOS_TaskUnblock semaphore ?s2 = Some s3"
    using TaskUnblock_returns by blast
  then have "sems s3 = sems ?s2"
    by (simp add: TaskUnblock_frame)
  then have fr: "sems s3 = (sems s)(semaphore := Some (m\<lparr>s_count := s_count m + 1\<rparr>))"
    by (simp add: EOS_EnterCritical_def)
  from lt have nle: "\<not> s_max_count m \<le> s_count m" by simp
  have "EOS_SemaphoreRelease semaphore s = Some (EOS_OK, EOS_ExitCritical s3)"
    using assms(2) nle s3 by (simp add: EOS_SemaphoreRelease_def Let_def EOS_EnterCritical_def)
  moreover have "sems (EOS_ExitCritical s3) = (sems s)(semaphore := Some (m\<lparr>s_count := s_count m + 1\<rparr>))"
    using fr by (simp add: EOS_ExitCritical_def)
  moreover from lt have "unat (s_count m + 1) = unat (s_count m) + 1"
    by (rule word_succ_unat)
  ultimately show ?thesis using False by simp
qed

theorem SemaphoreRelease_error_iff_full_witness:
  "ring (tcbs sleepers) (run_ptr sleepers # [64, 96, 128]) \<and>
   sems sleepers 100 = Some \<lparr> s_count = 0, s_max_count = 1 \<rparr> \<and>
   (\<exists>s'. EOS_SemaphoreRelease 100 sleepers = Some (EOS_OK, s') \<and>
         sems s' 100 = Some \<lparr> s_count = 1, s_max_count = 1 \<rparr>)"
proof -
  have r: "ring (tcbs sleepers) (run_ptr sleepers # [64, 96, 128])"
    by (simp add: sleepers_def ring_def NULL_def)
  have m: "sems sleepers 100 = Some \<lparr> s_count = 0, s_max_count = 1 \<rparr>"
    by (simp add: sleepers_def)
  have c: "s_count \<lparr> s_count = 0, s_max_count = 1 \<rparr> \<le> s_max_count \<lparr> s_count = 0, s_max_count = 1 \<rparr>"
    by simp
  from SemaphoreRelease_error_iff_full [OF r m c] r m show ?thesis
    by auto
qed

section \<open>The interrupt mask on the error paths\<close>

lemma Pause_null: "EOS_Pause NULL s = Some (EOS_ERROR, s\<lparr>primask := True\<rparr>)"
  by (simp add: EOS_Pause_def EOS_EnterCritical_def)

lemma Resume_null: "EOS_Resume NULL s = Some (EOS_ERROR, s\<lparr>primask := True\<rparr>)"
  by (simp add: EOS_Resume_def EOS_EnterCritical_def)

lemma Pause_paused:
  "task \<noteq> NULL \<Longrightarrow> tcbs s task = Some t \<Longrightarrow> paused t \<noteq> 0 \<Longrightarrow>
   EOS_Pause task s = Some (EOS_ERROR, s\<lparr>primask := True\<rparr>)"
  by (simp add: EOS_Pause_def EOS_EnterCritical_def)

lemma Resume_not_paused:
  "task \<noteq> NULL \<Longrightarrow> tcbs s task = Some t \<Longrightarrow> paused t \<noteq> EOS_PAUSED \<Longrightarrow>
   EOS_Resume task s = Some (EOS_ERROR, s\<lparr>primask := True\<rparr>)"
  by (simp add: EOS_Resume_def EOS_EnterCritical_def)

text \<open>
  C2 at failing inputs. Called with interrupts enabled, \<open>EOS_Pause(NULL)\<close> and \<open>EOS_Resume\<close>
  of a task that is not paused (here the idle task in the initial state) return \<open>EOS_ERROR\<close>
  with the interrupts still masked: the two early returns come before \<open>EOS_ExitCritical\<close>.
\<close>

theorem Pause_Resume_error_paths_stay_masked:
  "primask kernel_init = False \<and>
   EOS_Pause NULL kernel_init = Some (EOS_ERROR, kernel_init\<lparr>primask := True\<rparr>) \<and>
   EOS_Resume idle_task kernel_init = Some (EOS_ERROR, kernel_init\<lparr>primask := True\<rparr>)"
proof -
  have "tcbs kernel_init idle_task = Some idle_tcb" "idle_task \<noteq> NULL"
    "paused idle_tcb \<noteq> EOS_PAUSED"
    by (simp_all add: kernel_init_def idle_task_def NULL_def idle_tcb_def EOS_PAUSED_def)
  then have "EOS_Resume idle_task kernel_init = Some (EOS_ERROR, kernel_init\<lparr>primask := True\<rparr>)"
    by (simp add: Resume_not_paused)
  then show ?thesis
    by (simp add: Pause_null) (simp add: kernel_init_def)
qed

section \<open>A semaphore created with a count of zero\<close>

lemma SemaphoreAcquire_wait_zero:
  assumes "\<forall>e\<in>set envs. \<forall>u. zero_semaphore semaphore u \<longrightarrow> zero_semaphore semaphore (e u)"
    and "zero_semaphore semaphore s"
  shows "SemaphoreAcquire_wait semaphore envs s \<noteq> Some (Returned st s')"
  using assms
proof (induction envs arbitrary: s)
  case Nil
  then show ?case by simp
next
  case (Cons e es)
  from Cons.prems have z: "zero_semaphore semaphore (e s)" by simp
  show ?case
  proof (cases "tcbs (e s) (run_ptr (e s))")
    case None
    with z show ?thesis
      by (simp add: SemaphoreAcquire_iter_def zero_semaphore_def EOS_EnterCritical_def)
  next
    case (Some r)
    let ?s1 = "EOS_Suspend (EOS_ExitCritical ((EOS_EnterCritical (e s))
         \<lparr>tcbs := (tcbs (EOS_EnterCritical (e s)))
            (run_ptr (EOS_EnterCritical (e s)) := Some (r\<lparr>blocked := semaphore\<rparr>))\<rparr>))"
    from z Some have it: "SemaphoreAcquire_iter semaphore (EOS_EnterCritical (e s)) = Some (Suspended ?s1)"
      by (simp add: SemaphoreAcquire_iter_def zero_semaphore_def EOS_EnterCritical_def)
    from z have "zero_semaphore semaphore ?s1"
      by (simp add: zero_semaphore_def EOS_EnterCritical_def EOS_ExitCritical_def EOS_Suspend_def)
    with Cons.IH Cons.prems(1) have "SemaphoreAcquire_wait semaphore es ?s1 \<noteq> Some (Returned st s')"
      by simp
    with it show ?thesis by simp
  qed
qed

text \<open>
  C9. \<open>EOS_SemaphoreNew(0)\<close> with a successful allocation returns a semaphore with
  \<open>count = max_count = 0\<close>. On such a semaphore every \<open>EOS_SemaphoreRelease\<close> returns
  \<open>EOS_ERROR\<close> and leaves it as it is, and \<open>EOS_SemaphoreAcquire\<close> never returns, whatever
  runs while the caller is suspended, as long as that leaves the semaphore as it is.
\<close>

theorem SemaphoreNew_zero_never_usable:
  assumes "semaphore \<noteq> NULL"
  shows "(\<exists>s1. EOS_SemaphoreNew 0 semaphore s0 = (semaphore, s1) \<and> zero_semaphore semaphore s1) \<and>
    (\<forall>s. zero_semaphore semaphore s \<longrightarrow>
       (\<exists>s'. EOS_SemaphoreRelease semaphore s = Some (EOS_ERROR, s') \<and>
             zero_semaphore semaphore s' \<and> tcbs s' = tcbs s)) \<and>
    (\<forall>s envs st s'. zero_semaphore semaphore s \<longrightarrow>
       (\<forall>e\<in>set envs. \<forall>u. zero_semaphore semaphore u \<longrightarrow> zero_semaphore semaphore (e u)) \<longrightarrow>
       EOS_SemaphoreAcquire semaphore envs s \<noteq> Some (Returned st s'))"
proof (intro conjI allI impI)
  show "\<exists>s1. EOS_SemaphoreNew 0 semaphore s0 = (semaphore, s1) \<and> zero_semaphore semaphore s1"
    using assms by (simp add: EOS_SemaphoreNew_def zero_semaphore_def)
next
  fix s assume "zero_semaphore semaphore s"
  then show "\<exists>s'. EOS_SemaphoreRelease semaphore s = Some (EOS_ERROR, s') \<and>
             zero_semaphore semaphore s' \<and> tcbs s' = tcbs s"
    by (simp add: EOS_SemaphoreRelease_def zero_semaphore_def EOS_EnterCritical_def
        EOS_ExitCritical_def)
next
  fix s envs st s'
  assume z: "zero_semaphore semaphore s"
    and e: "\<forall>e\<in>set envs. \<forall>u. zero_semaphore semaphore u \<longrightarrow> zero_semaphore semaphore (e u)"
  show "EOS_SemaphoreAcquire semaphore envs s \<noteq> Some (Returned st s')"
  proof (cases "tcbs s (run_ptr s)")
    case None
    with z show ?thesis
      by (simp add: EOS_SemaphoreAcquire_def SemaphoreAcquire_iter_def zero_semaphore_def
          EOS_EnterCritical_def)
  next
    case (Some r)
    let ?s1 = "EOS_Suspend (EOS_ExitCritical ((EOS_EnterCritical s)
         \<lparr>tcbs := (tcbs (EOS_EnterCritical s))
            (run_ptr (EOS_EnterCritical s) := Some (r\<lparr>blocked := semaphore\<rparr>))\<rparr>))"
    from z Some have it: "SemaphoreAcquire_iter semaphore (EOS_EnterCritical s) = Some (Suspended ?s1)"
      by (simp add: SemaphoreAcquire_iter_def zero_semaphore_def EOS_EnterCritical_def)
    from z have "zero_semaphore semaphore ?s1"
      by (simp add: zero_semaphore_def EOS_EnterCritical_def EOS_ExitCritical_def EOS_Suspend_def)
    with e have "SemaphoreAcquire_wait semaphore envs ?s1 \<noteq> Some (Returned st s')"
      by (rule SemaphoreAcquire_wait_zero)
    with it show ?thesis by (simp add: EOS_SemaphoreAcquire_def)
  qed
qed

text \<open>The theorem for a semaphore allocated at address 100 in the initial state.\<close>

theorem SemaphoreNew_zero_never_usable_witness:
  "(100::addr) \<noteq> NULL \<and>
   zero_semaphore 100 (snd (EOS_SemaphoreNew 0 100 kernel_init)) \<and>
   map_option fst (EOS_SemaphoreRelease 100 (snd (EOS_SemaphoreNew 0 100 kernel_init))) = Some EOS_ERROR \<and>
   (\<exists>u. EOS_SemaphoreAcquire 100 [] (snd (EOS_SemaphoreNew 0 100 kernel_init)) = Some (Suspended u))"
proof -
  have n: "(100::addr) \<noteq> NULL" by (simp add: NULL_def)
  let ?s1 = "snd (EOS_SemaphoreNew 0 100 kernel_init)"
  from SemaphoreNew_zero_never_usable [OF n, of kernel_init]
  have z: "zero_semaphore 100 ?s1"
    and rel: "\<forall>s. zero_semaphore 100 s \<longrightarrow>
       (\<exists>s'. EOS_SemaphoreRelease 100 s = Some (EOS_ERROR, s') \<and>
             zero_semaphore 100 s' \<and> tcbs s' = tcbs s)"
    by auto
  from rel z have "map_option fst (EOS_SemaphoreRelease 100 ?s1) = Some EOS_ERROR"
    by auto
  moreover have "\<exists>u. EOS_SemaphoreAcquire 100 [] ?s1 = Some (Suspended u)"
    by (simp add: EOS_SemaphoreAcquire_def SemaphoreAcquire_iter_def EOS_SemaphoreNew_def
        NULL_def kernel_init_def EOS_EnterCritical_def)
  ultimately show ?thesis using n z by blast
qed

section \<open>A queue created with a size of zero\<close>

text \<open>
  C10. \<open>EOS_QueueCreate(0, item_size)\<close> with successful allocations returns a queue with
  \<open>count = 0 = size\<close>. In every state that holds this queue, \<open>EOS_QueuePut\<close> and
  \<open>EOS_QueueGet\<close> in \<open>EOS_NO_BLOCK\<close> mode return \<open>EOS_BLOCKED\<close> and leave every queue, and
  so \<open>head\<close>, \<open>tail\<close>, \<open>count\<close> and the buffer of this one, as it is; the state they return
  holds the same queue again.
\<close>

theorem QueueCreate_zero_always_blocked:
  assumes "queue \<noteq> NULL" and "buffer \<noteq> NULL"
  shows "\<exists>s1 q. EOS_QueueCreate 0 item_size queue buffer mem s0 = (queue, s1) \<and>
    queues s1 queue = Some q \<and> q_count q = 0 \<and> q_size q = 0 \<and>
    (\<forall>s item envs. queues s queue = Some q \<longrightarrow>
       (\<exists>s'. EOS_QueuePut queue item EOS_NO_BLOCK envs s = Some (Returned EOS_BLOCKED s') \<and>
             queues s' = queues s) \<and>
       (\<exists>s'. EOS_QueueGet queue EOS_NO_BLOCK envs s = Some (Returned (EOS_BLOCKED, None) s') \<and>
             queues s' = queues s))"
  using assms
  by (simp add: EOS_QueueCreate_def EOS_QueuePut_def EOS_QueueGet_def EOS_EnterCritical_def
      EOS_ExitCritical_def)

text \<open>The theorem for a queue allocated at address 200 in the initial state.\<close>

theorem QueueCreate_zero_always_blocked_witness:
  "(200::addr) \<noteq> NULL \<and> (300::addr) \<noteq> NULL \<and>
   fst (EOS_QueueCreate 0 4 200 300 (\<lambda>a. 0) kernel_init) = 200 \<and>
   map_option q_count (queues (snd (EOS_QueueCreate 0 4 200 300 (\<lambda>a. 0) kernel_init)) 200) = Some 0 \<and>
   (\<exists>s'. EOS_QueuePut 200 (\<lambda>a. 7) EOS_NO_BLOCK []
            (snd (EOS_QueueCreate 0 4 200 300 (\<lambda>a. 0) kernel_init)) = Some (Returned EOS_BLOCKED s')) \<and>
   (\<exists>s'. EOS_QueueGet 200 EOS_NO_BLOCK []
            (snd (EOS_QueueCreate 0 4 200 300 (\<lambda>a. 0) kernel_init)) = Some (Returned (EOS_BLOCKED, None) s'))"
proof -
  have n: "(200::addr) \<noteq> NULL" "(300::addr) \<noteq> NULL" by (simp_all add: NULL_def)
  from QueueCreate_zero_always_blocked [OF n, of 4 "\<lambda>a. 0" kernel_init] n show ?thesis
    by fastforce
qed

section \<open>Queues\<close>

lemma ring_nxt_eq:
  "\<forall>a. map_option nxt (h' a) = map_option nxt (h a) \<Longrightarrow> ring h' xs = ring h xs"
proof -
  assume "\<forall>a. map_option nxt (h' a) = map_option nxt (h a)"
  then have "path h' (hd xs) xs (hd xs) = path h (hd xs) xs (hd xs)"
    by (intro path_nxt_eq) simp
  then show ?thesis by (simp add: ring_def)
qed

lemma TaskUnblock_nxt:
  "EOS_TaskUnblock item s = Some s' \<Longrightarrow> map_option nxt (tcbs s' a) = map_option nxt (tcbs s a)"
  by (auto simp: EOS_TaskUnblock_def Let_def EOS_Suspend_def EOS_ExitCritical_def
      split: option.splits if_splits)

lemma TaskUnblock_ring:
  "EOS_TaskUnblock item s = Some s' \<Longrightarrow> ring (tcbs s') xs = ring (tcbs s) xs"
  by (rule ring_nxt_eq) (simp add: TaskUnblock_nxt)

lemma queue_ok_take:
  assumes "queue_ok q" and "q_count q \<noteq> 0"
  shows "queue_ok (q\<lparr>q_head := (q_head q + 1) mod q_size q, q_count := q_count q - 1\<rparr>)"
    and "unat ((q_head q + 1) mod q_size q) = (unat (q_head q) + 1) mod unat (q_size q)"
    and "unat (q_count q - 1) + 1 = unat (q_count q)"
proof -
  from assms(1) have h: "q_head q < q_size q" and c: "q_count q \<le> q_size q"
    by (simp_all add: queue_ok_def)
  from h have pos: "0 < q_size q"
    by (auto simp: word_less_nat_alt)
  then have m: "(q_head q + 1) mod q_size q < q_size q"
    by (rule word_mod_less_divisor)
  from assms(2) have u: "unat (q_count q - 1) = unat (q_count q) - 1"
    by (rule unat_minus_one)
  from assms(2) have "0 < unat (q_count q)" by (simp add: unat_gt_0)
  with u show "unat (q_count q - 1) + 1 = unat (q_count q)" by simp
  with c have "q_count q - 1 \<le> q_size q"
    by (simp add: word_le_nat_alt)
  with m assms(1) show "queue_ok (q\<lparr>q_head := (q_head q + 1) mod q_size q, q_count := q_count q - 1\<rparr>)"
    by (simp add: queue_ok_def)
  from h show "unat ((q_head q + 1) mod q_size q) = (unat (q_head q) + 1) mod unat (q_size q)"
    by (simp add: unat_mod word_succ_unat)
qed

lemma queue_ok_store:
  assumes "queue_ok q" and "q_count q \<noteq> q_size q"
  shows "queue_ok (q\<lparr>q_buffer := b, q_tail := (q_tail q + 1) mod q_size q, q_count := q_count q + 1\<rparr>)"
    and "unat ((q_tail q + 1) mod q_size q) = (unat (q_tail q) + 1) mod unat (q_size q)"
    and "unat (q_count q + 1) = unat (q_count q) + 1"
proof -
  from assms(1) have t: "q_tail q < q_size q" and c: "q_count q \<le> q_size q"
    by (simp_all add: queue_ok_def)
  from t have pos: "0 < q_size q"
    by (auto simp: word_less_nat_alt)
  then have m: "(q_tail q + 1) mod q_size q < q_size q"
    by (rule word_mod_less_divisor)
  from c assms(2) have lt: "q_count q < q_size q" by simp
  then have "q_count q + 1 \<le> q_size q" by (rule inc_le)
  with m assms(1) show "queue_ok (q\<lparr>q_buffer := b, q_tail := (q_tail q + 1) mod q_size q, q_count := q_count q + 1\<rparr>)"
    by (simp add: queue_ok_def)
  from t show "unat ((q_tail q + 1) mod q_size q) = (unat (q_tail q) + 1) mod unat (q_size q)"
    by (simp add: unat_mod word_succ_unat)
  from lt show "unat (q_count q + 1) = unat (q_count q) + 1"
    by (rule word_succ_unat)
qed

lemma queue_ok_size: "queue_ok q \<Longrightarrow> q_size q \<noteq> 0"
  by (auto simp: queue_ok_def)

lemma QueueGet_take_ok:
  assumes "queues s queue = Some q" and "queue_ok q" and "q_count q \<noteq> 0"
    and "ring (tcbs s) (run_ptr s # rest)"
  shows "\<exists>v s'. QueueGet_take queue s = Some (Returned (EOS_OK, Some v) s') \<and>
     queues s' = (queues s)(queue := Some (q\<lparr>q_head := (q_head q + 1) mod q_size q,
                                              q_count := q_count q - 1\<rparr>)) \<and>
     run_ptr s' = run_ptr s \<and> ring (tcbs s') (run_ptr s # rest)"
proof -
  let ?q2 = "q\<lparr>q_head := (q_head q + 1) mod q_size q, q_count := q_count q - 1\<rparr>"
  let ?s1 = "s\<lparr>queues := (queues s)(queue := Some ?q2)\<rparr>"
  from assms(4) have "ring (tcbs ?s1) (run_ptr ?s1 # rest)" by simp
  then obtain s2 where s2: "EOS_TaskUnblock queue ?s1 = Some s2"
    using TaskUnblock_returns by blast
  then have fr: "queues s2 = queues ?s1" "run_ptr s2 = run_ptr ?s1"
    by (simp_all add: TaskUnblock_frame)
  from s2 assms(4) have rg: "ring (tcbs s2) (run_ptr s # rest)"
    by (simp add: TaskUnblock_ring)
  from assms(2) have "q_size q \<noteq> 0" by (rule queue_ok_size)
  with assms(1) s2 have "QueueGet_take queue s =
      Some (Returned (EOS_OK, Some (map (\<lambda>i. q_buffer q (unat (q_head q * q_item_size q) + i))
                                     [0..<unat (q_item_size q)]))
             (EOS_ExitCritical s2))"
    by (simp add: QueueGet_take_def Let_def)
  with fr rg show ?thesis
    by (simp add: EOS_ExitCritical_def)
qed

lemma QueuePut_store_ok:
  assumes "queues s queue = Some q" and "queue_ok q" and "q_count q \<noteq> q_size q"
    and "ring (tcbs s) (run_ptr s # rest)"
  shows "\<exists>b s'. QueuePut_store queue item s = Some (Returned EOS_OK s') \<and>
     queues s' = (queues s)(queue := Some (q\<lparr>q_buffer := b, q_tail := (q_tail q + 1) mod q_size q,
                                              q_count := q_count q + 1\<rparr>)) \<and>
     run_ptr s' = run_ptr s \<and> ring (tcbs s') (run_ptr s # rest)"
proof -
  let ?b = "\<lambda>a. if unat (q_tail q * q_item_size q) \<le> a \<and>
                    a < unat (q_tail q * q_item_size q) + unat (q_item_size q)
                 then item (a - unat (q_tail q * q_item_size q)) else q_buffer q a"
  let ?q3 = "q\<lparr>q_buffer := ?b, q_tail := (q_tail q + 1) mod q_size q, q_count := q_count q + 1\<rparr>"
  let ?s1 = "s\<lparr>queues := (queues s)(queue := Some ?q3)\<rparr>"
  from assms(4) have "ring (tcbs ?s1) (run_ptr ?s1 # rest)" by simp
  then obtain s2 where s2: "EOS_TaskUnblock queue ?s1 = Some s2"
    using TaskUnblock_returns by blast
  then have fr: "queues s2 = queues ?s1" "run_ptr s2 = run_ptr ?s1"
    by (simp_all add: TaskUnblock_frame)
  from s2 assms(4) have rg: "ring (tcbs s2) (run_ptr s # rest)"
    by (simp add: TaskUnblock_ring)
  from assms(2) have "q_size q \<noteq> 0" by (rule queue_ok_size)
  with assms(1) s2 have "QueuePut_store queue item s = Some (Returned EOS_OK (EOS_ExitCritical s2))"
    by (simp add: QueuePut_store_def Let_def)
  with fr rg have "QueuePut_store queue item s = Some (Returned EOS_OK (EOS_ExitCritical s2)) \<and>
     queues (EOS_ExitCritical s2) = (queues s)(queue := Some ?q3) \<and>
     run_ptr (EOS_ExitCritical s2) = run_ptr s \<and> ring (tcbs (EOS_ExitCritical s2)) (run_ptr s # rest)"
    by (simp add: EOS_ExitCritical_def)
  then show ?thesis by blast
qed

lemma QueueGet_retest_step:
  assumes "queues s queue = Some q" and "queue_ok q" and "ring (tcbs s) (run_ptr s # rest)"
  shows "\<exists>out q'. QueueGet_retest queue s = Some out \<and>
     queues (state_of out) queue = Some q' \<and> queue_ok q' \<and>
     run_ptr (state_of out) = run_ptr s \<and> ring (tcbs (state_of out)) (run_ptr s # rest) \<and>
     (if q_count q = 0 then (\<exists>s'. out = Suspended s') \<and> q' = q
      else (\<exists>v s'. out = Returned (EOS_OK, Some v) s') \<and>
           q' = q\<lparr>q_head := (q_head q + 1) mod q_size q, q_count := q_count q - 1\<rparr> \<and>
           unat (q_head q') = (unat (q_head q) + 1) mod unat (q_size q) \<and>
           unat (q_count q') + 1 = unat (q_count q))"
proof (cases "q_count q = 0")
  case True
  with assms show ?thesis
    by (simp add: QueueGet_retest_def EOS_Suspend_def EOS_ExitCritical_def)
next
  case False
  from QueueGet_take_ok [OF assms(1,2) False assms(3)] obtain v s' where
    t: "QueueGet_take queue s = Some (Returned (EOS_OK, Some v) s')"
       "queues s' = (queues s)(queue := Some (q\<lparr>q_head := (q_head q + 1) mod q_size q,
                                              q_count := q_count q - 1\<rparr>))"
       "run_ptr s' = run_ptr s" "ring (tcbs s') (run_ptr s # rest)"
    by blast
  from assms(1) False t(1) have "QueueGet_retest queue s = Some (Returned (EOS_OK, Some v) s')"
    by (simp add: QueueGet_retest_def)
  with t False queue_ok_take [OF assms(2) False] show ?thesis
    by simp
qed

lemma QueuePut_retest_step:
  assumes "queues s queue = Some q" and "queue_ok q" and "ring (tcbs s) (run_ptr s # rest)"
  shows "\<exists>out q'. QueuePut_retest queue item s = Some out \<and>
     queues (state_of out) queue = Some q' \<and> queue_ok q' \<and>
     run_ptr (state_of out) = run_ptr s \<and> ring (tcbs (state_of out)) (run_ptr s # rest) \<and>
     (if q_count q = q_size q then (\<exists>s'. out = Suspended s') \<and> q' = q
      else (\<exists>s'. out = Returned EOS_OK s') \<and>
           (\<exists>b. q' = q\<lparr>q_buffer := b, q_tail := (q_tail q + 1) mod q_size q,
                        q_count := q_count q + 1\<rparr>) \<and>
           unat (q_tail q') = (unat (q_tail q) + 1) mod unat (q_size q) \<and>
           unat (q_count q') = unat (q_count q) + 1)"
proof (cases "q_count q = q_size q")
  case True
  with assms show ?thesis
    by (simp add: QueuePut_retest_def EOS_Suspend_def EOS_ExitCritical_def)
next
  case False
  from QueuePut_store_ok [OF assms(1,2) False assms(3)] obtain b s' where
    t: "QueuePut_store queue item s = Some (Returned EOS_OK s')"
       "queues s' = (queues s)(queue := Some (q\<lparr>q_buffer := b,
            q_tail := (q_tail q + 1) mod q_size q, q_count := q_count q + 1\<rparr>))"
       "run_ptr s' = run_ptr s" "ring (tcbs s') (run_ptr s # rest)"
    by blast
  from assms(1) False t(1) have "QueuePut_retest queue item s = Some (Returned EOS_OK s')"
    by (simp add: QueuePut_retest_def)
  with t False queue_ok_store(1) [OF assms(2) False, of b] queue_ok_store(2,3) [OF assms(2) False]
  show ?thesis
    by auto
qed

lemma ring_tag_running:
  assumes "ring (tcbs s) (run_ptr s # rest)"
  shows "\<exists>r. tcbs s (run_ptr s) = Some r \<and>
           ring ((tcbs s)(run_ptr s := Some (r\<lparr>blocked := b\<rparr>))) (run_ptr s # rest)"
proof -
  from ring_run_parts(1) [OF assms] obtain r where r: "tcbs s (run_ptr s) = Some r" by blast
  then have "\<forall>a. map_option nxt (((tcbs s)(run_ptr s := Some (r\<lparr>blocked := b\<rparr>))) a) =
                 map_option nxt (tcbs s a)"
    by simp
  then have "ring ((tcbs s)(run_ptr s := Some (r\<lparr>blocked := b\<rparr>))) (run_ptr s # rest) =
             ring (tcbs s) (run_ptr s # rest)"
    by (rule ring_nxt_eq)
  with assms r show ?thesis by simp
qed

lemma QueueGet_entry_step:
  assumes "queues s queue = Some q" and "queue_ok q" and "ring (tcbs s) (run_ptr s # rest)"
  shows "\<exists>out q'. EOS_QueueGet queue block [] s = Some out \<and>
     queues (state_of out) queue = Some q' \<and> queue_ok q' \<and>
     run_ptr (state_of out) = run_ptr s \<and> ring (tcbs (state_of out)) (run_ptr s # rest) \<and>
     (if q_count q = 0
      then q' = q \<and> (if block = EOS_BLOCK then (\<exists>s'. out = Suspended s')
                     else (\<exists>s'. out = Returned (EOS_BLOCKED, None) s'))
      else (\<exists>v s'. out = Returned (EOS_OK, Some v) s') \<and>
           q' = q\<lparr>q_head := (q_head q + 1) mod q_size q, q_count := q_count q - 1\<rparr> \<and>
           unat (q_head q') = (unat (q_head q) + 1) mod unat (q_size q) \<and>
           unat (q_count q') + 1 = unat (q_count q))"
proof (cases "q_count q = 0")
  case True
  from ring_tag_running [OF assms(3), of queue] obtain r where
    "tcbs s (run_ptr s) = Some r"
    "ring ((tcbs s)(run_ptr s := Some (r\<lparr>blocked := queue\<rparr>))) (run_ptr s # rest)"
    by blast
  with True assms show ?thesis
    by (cases block)
      (simp_all add: EOS_QueueGet_def EOS_EnterCritical_def EOS_Suspend_def EOS_ExitCritical_def)
next
  case False
  let ?s1 = "EOS_EnterCritical s"
  from assms have a: "queues ?s1 queue = Some q" "ring (tcbs ?s1) (run_ptr ?s1 # rest)"
    by (simp_all add: EOS_EnterCritical_def)
  from QueueGet_take_ok [OF a(1) assms(2) False a(2)] obtain v s' where
    t: "QueueGet_take queue ?s1 = Some (Returned (EOS_OK, Some v) s')"
       "queues s' = (queues ?s1)(queue := Some (q\<lparr>q_head := (q_head q + 1) mod q_size q,
                                              q_count := q_count q - 1\<rparr>))"
       "run_ptr s' = run_ptr ?s1" "ring (tcbs s') (run_ptr ?s1 # rest)"
    by blast
  from a(1) False t(1) have "EOS_QueueGet queue block [] s = Some (Returned (EOS_OK, Some v) s')"
    by (simp add: EOS_QueueGet_def Let_def)
  with t False queue_ok_take [OF assms(2) False] show ?thesis
    by (simp add: EOS_EnterCritical_def)
qed

lemma QueuePut_entry_step:
  assumes "queues s queue = Some q" and "queue_ok q" and "ring (tcbs s) (run_ptr s # rest)"
  shows "\<exists>out q'. EOS_QueuePut queue item block [] s = Some out \<and>
     queues (state_of out) queue = Some q' \<and> queue_ok q' \<and>
     run_ptr (state_of out) = run_ptr s \<and> ring (tcbs (state_of out)) (run_ptr s # rest) \<and>
     (if q_count q = q_size q
      then q' = q \<and> (if block = EOS_BLOCK then (\<exists>s'. out = Suspended s')
                     else (\<exists>s'. out = Returned EOS_BLOCKED s'))
      else (\<exists>s'. out = Returned EOS_OK s') \<and>
           (\<exists>b. q' = q\<lparr>q_buffer := b, q_tail := (q_tail q + 1) mod q_size q,
                        q_count := q_count q + 1\<rparr>) \<and>
           unat (q_tail q') = (unat (q_tail q) + 1) mod unat (q_size q) \<and>
           unat (q_count q') = unat (q_count q) + 1)"
proof (cases "q_count q = q_size q")
  case True
  from ring_tag_running [OF assms(3), of queue] obtain r where
    "tcbs s (run_ptr s) = Some r"
    "ring ((tcbs s)(run_ptr s := Some (r\<lparr>blocked := queue\<rparr>))) (run_ptr s # rest)"
    by blast
  with True assms show ?thesis
    by (cases block)
      (simp_all add: EOS_QueuePut_def EOS_EnterCritical_def EOS_Suspend_def EOS_ExitCritical_def)
next
  case False
  let ?s1 = "EOS_EnterCritical s"
  from assms have a: "queues ?s1 queue = Some q" "ring (tcbs ?s1) (run_ptr ?s1 # rest)"
    by (simp_all add: EOS_EnterCritical_def)
  from QueuePut_store_ok [OF a(1) assms(2) False a(2)] obtain b s' where
    t: "QueuePut_store queue item ?s1 = Some (Returned EOS_OK s')"
       "queues s' = (queues ?s1)(queue := Some (q\<lparr>q_buffer := b,
            q_tail := (q_tail q + 1) mod q_size q, q_count := q_count q + 1\<rparr>))"
       "run_ptr s' = run_ptr ?s1" "ring (tcbs s') (run_ptr ?s1 # rest)"
    by blast
  from a(1) False t(1) have "EOS_QueuePut queue item block [] s = Some (Returned EOS_OK s')"
    by (simp add: EOS_QueuePut_def Let_def)
  with t False queue_ok_store(1) [OF assms(2) False, of b] queue_ok_store(2,3) [OF assms(2) False]
  show ?thesis
    by (auto simp: EOS_EnterCritical_def)
qed

lemma queue_state_ok_flags [simp]:
  "queue_state_ok queue (EOS_EnterCritical s) = queue_state_ok queue s"
  by (simp add: queue_state_ok_def EOS_EnterCritical_def)

lemma queue_state_okI:
  "queues s queue = Some q \<Longrightarrow> queue_ok q \<Longrightarrow> ring (tcbs s) (run_ptr s # rest) \<Longrightarrow>
   queue_state_ok queue s"
  by (auto simp: queue_state_ok_def)

lemma QueueGet_wait_inv:
  assumes "\<forall>e\<in>set envs. \<forall>u. queue_state_ok queue u \<longrightarrow> queue_state_ok queue (e u)"
    and "queue_state_ok queue s"
  shows "\<exists>out. QueueGet_wait queue envs s = Some out \<and> queue_state_ok queue (state_of out)"
  using assms
proof (induction envs arbitrary: s)
  case Nil
  then show ?case by simp
next
  case (Cons e es)
  let ?u = "EOS_EnterCritical (e s)"
  from Cons.prems have "queue_state_ok queue ?u" by simp
  then obtain q rest where "queues ?u queue = Some q" "queue_ok q" "ring (tcbs ?u) (run_ptr ?u # rest)"
    by (auto simp: queue_state_ok_def)
  from QueueGet_retest_step [OF this] obtain out q' where
    out: "QueueGet_retest queue ?u = Some out" "queues (state_of out) queue = Some q'" "queue_ok q'"
      "run_ptr (state_of out) = run_ptr ?u" "ring (tcbs (state_of out)) (run_ptr ?u # rest)"
    by blast
  then have ok: "queue_state_ok queue (state_of out)"
    by (auto intro: queue_state_okI)
  show ?case
  proof (cases out)
    case (Returned v s')
    with out(1) ok show ?thesis by simp
  next
    case (Suspended s1)
    with ok Cons.IH [of s1] Cons.prems(1) out(1) show ?thesis by simp
  qed
qed

lemma QueuePut_wait_inv:
  assumes "\<forall>e\<in>set envs. \<forall>u. queue_state_ok queue u \<longrightarrow> queue_state_ok queue (e u)"
    and "queue_state_ok queue s"
  shows "\<exists>out. QueuePut_wait queue item envs s = Some out \<and> queue_state_ok queue (state_of out)"
  using assms
proof (induction envs arbitrary: s)
  case Nil
  then show ?case by simp
next
  case (Cons e es)
  let ?u = "EOS_EnterCritical (e s)"
  from Cons.prems have "queue_state_ok queue ?u" by simp
  then obtain q rest where "queues ?u queue = Some q" "queue_ok q" "ring (tcbs ?u) (run_ptr ?u # rest)"
    by (auto simp: queue_state_ok_def)
  from QueuePut_retest_step [OF this] obtain out q' where
    out: "QueuePut_retest queue item ?u = Some out" "queues (state_of out) queue = Some q'" "queue_ok q'"
      "run_ptr (state_of out) = run_ptr ?u" "ring (tcbs (state_of out)) (run_ptr ?u # rest)"
    by blast
  then have ok: "queue_state_ok queue (state_of out)"
    by (auto intro: queue_state_okI)
  show ?case
  proof (cases out)
    case (Returned v s')
    with out(1) ok show ?thesis by simp
  next
    case (Suspended s1)
    with ok Cons.IH [of s1] Cons.prems(1) out(1) show ?thesis by simp
  qed
qed

lemma QueueGet_inv:
  assumes "\<forall>e\<in>set envs. \<forall>u. queue_state_ok queue u \<longrightarrow> queue_state_ok queue (e u)"
    and "queue_state_ok queue s"
  shows "\<exists>out. EOS_QueueGet queue block envs s = Some out \<and> queue_state_ok queue (state_of out)"
proof -
  from assms(2) obtain q rest where
    q: "queues s queue = Some q" "queue_ok q" "ring (tcbs s) (run_ptr s # rest)"
    by (auto simp: queue_state_ok_def)
  from QueueGet_entry_step [OF q, of block] obtain out q' where
    out: "EOS_QueueGet queue block [] s = Some out" "queues (state_of out) queue = Some q'"
      "queue_ok q'" "run_ptr (state_of out) = run_ptr s"
      "ring (tcbs (state_of out)) (run_ptr s # rest)"
    by blast
  then have ok: "queue_state_ok queue (state_of out)"
    by (auto intro: queue_state_okI)
  show ?thesis
  proof (cases "q_count q = 0 \<and> block = EOS_BLOCK")
    case False
    with q(1) out(1) have "EOS_QueueGet queue block envs s = Some out"
      by (auto simp: EOS_QueueGet_def Let_def EOS_EnterCritical_def)
    with ok show ?thesis by simp
  next
    case True
    from ring_tag_running [OF q(3), of queue] obtain r where
      r: "tcbs s (run_ptr s) = Some r" by blast
    let ?s1 = "EOS_Suspend (EOS_ExitCritical ((EOS_EnterCritical s)
       \<lparr>tcbs := (tcbs (EOS_EnterCritical s))
          (run_ptr (EOS_EnterCritical s) := Some (r\<lparr>blocked := queue\<rparr>))\<rparr>))"
    from True q(1) r have e: "EOS_QueueGet queue block [] s = Some (Suspended ?s1)"
      and w: "EOS_QueueGet queue block envs s = QueueGet_wait queue envs ?s1"
      by (simp_all add: EOS_QueueGet_def Let_def EOS_EnterCritical_def)
    from e out(1) ok have "queue_state_ok queue ?s1" by auto
    with assms(1) w show ?thesis
      by (simp only: QueueGet_wait_inv)
  qed
qed

lemma QueuePut_inv:
  assumes "\<forall>e\<in>set envs. \<forall>u. queue_state_ok queue u \<longrightarrow> queue_state_ok queue (e u)"
    and "queue_state_ok queue s"
  shows "\<exists>out. EOS_QueuePut queue item block envs s = Some out \<and> queue_state_ok queue (state_of out)"
proof -
  from assms(2) obtain q rest where
    q: "queues s queue = Some q" "queue_ok q" "ring (tcbs s) (run_ptr s # rest)"
    by (auto simp: queue_state_ok_def)
  from QueuePut_entry_step [OF q, of item block] obtain out q' where
    out: "EOS_QueuePut queue item block [] s = Some out" "queues (state_of out) queue = Some q'"
      "queue_ok q'" "run_ptr (state_of out) = run_ptr s"
      "ring (tcbs (state_of out)) (run_ptr s # rest)"
    by blast
  then have ok: "queue_state_ok queue (state_of out)"
    by (auto intro: queue_state_okI)
  show ?thesis
  proof (cases "q_count q = q_size q \<and> block = EOS_BLOCK")
    case False
    with q(1) out(1) have "EOS_QueuePut queue item block envs s = Some out"
      by (auto simp: EOS_QueuePut_def Let_def EOS_EnterCritical_def)
    with ok show ?thesis by simp
  next
    case True
    from ring_tag_running [OF q(3), of queue] obtain r where
      r: "tcbs s (run_ptr s) = Some r" by blast
    let ?s1 = "EOS_Suspend (EOS_ExitCritical ((EOS_EnterCritical s)
       \<lparr>tcbs := (tcbs (EOS_EnterCritical s))
          (run_ptr (EOS_EnterCritical s) := Some (r\<lparr>blocked := queue\<rparr>))\<rparr>))"
    from True q(1) r have e: "EOS_QueuePut queue item block [] s = Some (Suspended ?s1)"
      and w: "EOS_QueuePut queue item block envs s = QueuePut_wait queue item envs ?s1"
      by (simp_all add: EOS_QueuePut_def Let_def EOS_EnterCritical_def)
    from e out(1) ok have "queue_state_ok queue ?s1" by auto
    with assms(1) w show ?thesis
      by (simp only: QueuePut_wait_inv)
  qed
qed

lemma QueueCreate_ok:
  assumes "1 \<le> sz" and "queue \<noteq> NULL" and "buffer \<noteq> NULL"
  shows "\<exists>q. queues (snd (EOS_QueueCreate sz item_size queue buffer mem s)) queue = Some q \<and>
           queue_ok q"
proof -
  from assms(1) have "sz \<noteq> 0" by auto
  then have "0 < sz" by (simp add: word_gt_0)
  with assms(2,3) show ?thesis
    by (simp add: EOS_QueueCreate_def queue_ok_def)
qed

text \<open>
  C8. A queue created with a size of at least one satisfies the predicate. In a state in
  order for a queue, with everything that runs while the caller is
  suspended keeping states in order for it: \<open>EOS_QueueGet\<close> and \<open>EOS_QueuePut\<close> give an
  outcome in a state in order for the queue. A call that is not interleaved, and the retest
  after a suspension, return \<open>EOS_OK\<close> exactly when the queue is not empty (get), not full
  (put); then \<open>head\<close> (get), \<open>tail\<close> (put) has advanced by one modulo \<open>size\<close> and \<open>count\<close> has
  gone down (get), up (put) by one, and in every other case the queue is unchanged. Empty is
  \<open>count = 0\<close> and full is \<open>count = size\<close>: these are the cases where a call in
  \<open>EOS_NO_BLOCK\<close> mode returns \<open>EOS_BLOCKED\<close> and a call in \<open>EOS_BLOCK\<close> mode suspends.
\<close>

theorem Queue_predicate_preserved:
  assumes "queue_state_ok queue s" and "queues s queue = Some q"
    and "\<forall>e\<in>set envs. \<forall>u. queue_state_ok queue u \<longrightarrow> queue_state_ok queue (e u)"
  shows "(\<forall>sz item_size a b mem s0. 1 \<le> sz \<and> a \<noteq> NULL \<and> b \<noteq> NULL \<longrightarrow>
       (\<exists>q0. queues (snd (EOS_QueueCreate sz item_size a b mem s0)) a = Some q0 \<and> queue_ok q0)) \<and>
    (\<exists>out. EOS_QueueGet queue block envs s = Some out \<and> queue_state_ok queue (state_of out)) \<and>
    (\<exists>out. EOS_QueuePut queue item block envs s = Some out \<and> queue_state_ok queue (state_of out)) \<and>
    (\<exists>out q'. EOS_QueueGet queue block [] s = Some out \<and>
       queues (state_of out) queue = Some q' \<and> queue_ok q' \<and>
       (if q_count q = 0
        then q' = q \<and> (if block = EOS_BLOCK then (\<exists>s'. out = Suspended s')
                       else (\<exists>s'. out = Returned (EOS_BLOCKED, None) s'))
        else (\<exists>v s'. out = Returned (EOS_OK, Some v) s') \<and>
             q' = q\<lparr>q_head := (q_head q + 1) mod q_size q, q_count := q_count q - 1\<rparr> \<and>
             unat (q_head q') = (unat (q_head q) + 1) mod unat (q_size q) \<and>
             unat (q_count q') + 1 = unat (q_count q))) \<and>
    (\<exists>out q'. QueueGet_retest queue s = Some out \<and>
       queues (state_of out) queue = Some q' \<and> queue_ok q' \<and>
       (if q_count q = 0 then (\<exists>s'. out = Suspended s') \<and> q' = q
        else (\<exists>v s'. out = Returned (EOS_OK, Some v) s') \<and>
             q' = q\<lparr>q_head := (q_head q + 1) mod q_size q, q_count := q_count q - 1\<rparr> \<and>
             unat (q_head q') = (unat (q_head q) + 1) mod unat (q_size q) \<and>
             unat (q_count q') + 1 = unat (q_count q))) \<and>
    (\<exists>out q'. EOS_QueuePut queue item block [] s = Some out \<and>
       queues (state_of out) queue = Some q' \<and> queue_ok q' \<and>
       (if q_count q = q_size q
        then q' = q \<and> (if block = EOS_BLOCK then (\<exists>s'. out = Suspended s')
                       else (\<exists>s'. out = Returned EOS_BLOCKED s'))
        else (\<exists>s'. out = Returned EOS_OK s') \<and>
             (\<exists>b. q' = q\<lparr>q_buffer := b, q_tail := (q_tail q + 1) mod q_size q,
                          q_count := q_count q + 1\<rparr>) \<and>
             unat (q_tail q') = (unat (q_tail q) + 1) mod unat (q_size q) \<and>
             unat (q_count q') = unat (q_count q) + 1)) \<and>
    (\<exists>out q'. QueuePut_retest queue item s = Some out \<and>
       queues (state_of out) queue = Some q' \<and> queue_ok q' \<and>
       (if q_count q = q_size q then (\<exists>s'. out = Suspended s') \<and> q' = q
        else (\<exists>s'. out = Returned EOS_OK s') \<and>
             (\<exists>b. q' = q\<lparr>q_buffer := b, q_tail := (q_tail q + 1) mod q_size q,
                          q_count := q_count q + 1\<rparr>) \<and>
             unat (q_tail q') = (unat (q_tail q) + 1) mod unat (q_size q) \<and>
             unat (q_count q') = unat (q_count q) + 1))"
proof -
  from assms(1,2) obtain rest where
    q: "queues s queue = Some q" "queue_ok q" "ring (tcbs s) (run_ptr s # rest)"
    by (auto simp: queue_state_ok_def)
  have 1: "\<exists>out. EOS_QueueGet queue block envs s = Some out \<and> queue_state_ok queue (state_of out)"
    using assms(3,1) by (rule QueueGet_inv)
  have 2: "\<exists>out. EOS_QueuePut queue item block envs s = Some out \<and> queue_state_ok queue (state_of out)"
    using assms(3,1) by (rule QueuePut_inv)
  have 0: "\<forall>sz item_size a b mem s0. 1 \<le> sz \<and> a \<noteq> NULL \<and> b \<noteq> NULL \<longrightarrow>
       (\<exists>q0. queues (snd (EOS_QueueCreate sz item_size a b mem s0)) a = Some q0 \<and> queue_ok q0)"
    by (simp add: QueueCreate_ok)
  from QueueGet_entry_step [OF q, of block] QueueGet_retest_step [OF q]
    QueuePut_entry_step [OF q, of item block] QueuePut_retest_step [OF q, of item] 0 1 2
  show ?thesis by blast
qed

text \<open>
  The theorem at the state \<open>queue_demo\<close>: a get returns \<open>EOS_OK\<close> and moves \<open>head\<close> from 0 to 1,
  a put returns \<open>EOS_OK\<close> and moves \<open>tail\<close> from 1 to 0.
\<close>

theorem Queue_predicate_preserved_witness:
  "queue_state_ok 200 queue_demo \<and>
   (\<exists>v s'. EOS_QueueGet 200 EOS_NO_BLOCK [] queue_demo = Some (Returned (EOS_OK, Some v) s') \<and>
      map_option q_head (queues s' 200) = Some 1 \<and> map_option q_count (queues s' 200) = Some 0) \<and>
   (\<exists>s'. EOS_QueuePut 200 (\<lambda>a. 9) EOS_NO_BLOCK [] queue_demo = Some (Returned EOS_OK s') \<and>
      map_option q_tail (queues s' 200) = Some 0 \<and> map_option q_count (queues s' 200) = Some 2)"
proof -
  let ?q = "\<lparr> q_buffer = (\<lambda>a. if a = 0 then 7 else 0), q_head = 0, q_tail = 1,
              q_size = 2, q_item_size = 1, q_count = 1 \<rparr>"
  have q: "queues queue_demo 200 = Some ?q"
    by (simp add: queue_demo_def)
  have r: "ring (tcbs queue_demo) (run_ptr queue_demo # [96, 32])"
    by (simp add: queue_demo_def three_tasks_def ring_def NULL_def)
  have "queue_ok ?q"
    by (simp add: queue_ok_def)
  with q have ok: "queue_state_ok 200 queue_demo"
    using r by (rule queue_state_okI)
  have e: "\<forall>e\<in>set []. \<forall>u. queue_state_ok 200 u \<longrightarrow> queue_state_ok 200 (e u)"
    by simp
  from Queue_predicate_preserved [OF ok q e, of EOS_NO_BLOCK "\<lambda>a. 9"] ok show ?thesis
    by (simp, force)
qed

section \<open>The wait loops of the queue and of the semaphore\<close>

text \<open>
  C3 at a failing input. The running task blocks on the empty queue at 200, is woken and
  finds the queue still empty: \<open>EOS_QueueGet\<close> suspends it again with \<open>blocked\<close> left at 0,
  where \<open>EOS_SemaphoreAcquire\<close> on the semaphore at 100, through the same interleaving, suspends
  it with \<open>blocked\<close> set to the semaphore again. Up to the first suspension the two agree:
  each sets \<open>blocked\<close> to its own object.
\<close>

theorem QueueGet_retry_does_not_retag:
  "map_option (running_blocked \<circ> state_of) (EOS_QueueGet 200 EOS_BLOCK [] empty_demo) = Some (Some 200) \<and>
   map_option (running_blocked \<circ> state_of) (EOS_SemaphoreAcquire 100 [] empty_demo) = Some (Some 100) \<and>
   map_option (running_blocked \<circ> state_of)
     (EOS_QueueGet 200 EOS_BLOCK [woken_unserved] empty_demo) = Some (Some 0) \<and>
   map_option (running_blocked \<circ> state_of)
     (EOS_SemaphoreAcquire 100 [woken_unserved] empty_demo) = Some (Some 100)"
  by (simp add: EOS_QueueGet_def QueueGet_retest_def EOS_SemaphoreAcquire_def
      SemaphoreAcquire_iter_def empty_demo_def three_tasks_def woken_unserved_def
      running_blocked_def EOS_EnterCritical_def EOS_ExitCritical_def EOS_Suspend_def)

section \<open>Thread creation keeps the ring\<close>

lemma follow_path_nth:
  "path h p xs q \<Longrightarrow> k < length xs \<Longrightarrow> follow h k p = Some (xs ! k)"
proof (induction xs arbitrary: p k)
  case Nil
  then show ?case by simp
next
  case (Cons x xs)
  from Cons.prems(1) obtain t where t: "p = x" "h x = Some t" "path h (nxt t) xs q"
    by (auto split: option.splits)
  show ?case
  proof (cases k)
    case 0
    with t show ?thesis by simp
  next
    case (Suc j)
    with Cons.prems(2) have "j < length xs" by simp
    with t(3) have "follow h j (nxt t) = Some (xs ! j)" by (rule Cons.IH)
    with t Suc show ?thesis by simp
  qed
qed

lemma follow_path: "path h p xs q \<Longrightarrow> follow h (length xs) p = Some q"
  by (induction xs arbitrary: p) (auto split: option.splits)

lemma ring_follow:
  assumes "ring h (a # ys)"
  shows "follow h (length (a # ys)) a = Some a"
    and "0 < k \<Longrightarrow> k < length (a # ys) \<Longrightarrow> follow h k a \<noteq> Some a"
proof -
  from assms have p: "path h a (a # ys) a" and d: "a \<notin> set ys"
    by (simp_all add: ring_def)
  from p show "follow h (length (a # ys)) a = Some a"
    by (rule follow_path)
  assume k: "0 < k" "k < length (a # ys)"
  from p k(2) have "follow h k a = Some ((a # ys) ! k)"
    by (rule follow_path_nth)
  moreover from k have "(a # ys) ! k \<in> set ys"
    by (cases k) simp_all
  ultimately show "follow h k a \<noteq> Some a"
    using d by auto
qed

lemma ring_member_rotate:
  assumes "ring h xs" and "a \<in> set xs"
  shows "\<exists>ys. ring h (a # ys) \<and> length (a # ys) = length xs \<and> set (a # ys) = set xs"
proof -
  from assms(2) obtain pre post where xs: "xs = pre @ a # post"
    by (auto simp: in_set_conv_decomp)
  show ?thesis
  proof (cases "pre = []")
    case True
    with xs assms(1) have "ring h (a # post) \<and> length (a # post) = length xs \<and>
        set (a # post) = set xs"
      by simp
    then show ?thesis ..
  next
    case False
    from assms(1) have "ring h (pre @ (a # post))" by (simp only: xs)
    then have "ring h ((a # post) @ pre)"
      using False by (rule ring_rotate) simp
    then have "ring h (a # (post @ pre)) \<and> length (a # (post @ pre)) = length xs \<and>
        set (a # (post @ pre)) = set xs"
      by (auto simp: xs)
    then show ?thesis ..
  qed
qed

text \<open>
  One call on a ring, the new control block allocated at an address that holds none: the
  call returns; it fails and changes nothing, or it returns the new block, which now sits
  at the end of the walk from \<open>run_ptr\<close>, immediately before \<open>run_ptr\<close>.
\<close>

lemma ThreadNew_step:
  assumes "ring (tcbs s) (run_ptr s # ys)" and "tcbs s cb = None" and "cb \<noteq> NULL"
  shows "\<exists>h s'. EOS_ThreadNew f p ts sz fpu cb stk s = Some (h, s') \<and> run_ptr s' = run_ptr s \<and>
     ((h = NULL \<and> s' = s) \<or>
      (h = cb \<and> cb \<noteq> NULL \<and> ring (tcbs s') (run_ptr s # ys @ [cb]) \<and>
       (\<forall>a. a \<notin> set (run_ptr s # ys @ [cb]) \<longrightarrow> tcbs s' a = tcbs s a)))"
proof (cases "sz < 64 \<or> p > PRIORITY_HIGH \<or> (ts = NULL \<and> stk = NULL)")
  case True
  then have "EOS_ThreadNew f p ts sz fpu cb stk s = Some (NULL, s)"
    by (auto simp: EOS_ThreadNew_def Let_def)
  then show ?thesis by simp
next
  case args: False
  with assms(3) have False:
    "\<not> (sz < 64 \<or> p > PRIORITY_HIGH \<or> (ts = NULL \<and> stk = NULL) \<or> cb = NULL)"
    by simp
  let ?r = "run_ptr s"
  define c where "c = ThreadNew_block (ThreadNew_sp ts stk sz fpu) p"
  define h0 where "h0 = (tcbs s)(cb := Some c)"
  define temp where "temp = last (?r # ys)"
  from assms(1) have p: "path (tcbs s) ?r (?r # ys) ?r" and d: "distinct (?r # ys)"
    and n: "NULL \<notin> set (?r # ys)"
    by (simp_all add: ring_def)
  have cbn: "cb \<notin> set (?r # ys)"
  proof
    assume "cb \<in> set (?r # ys)"
    with p have "\<exists>t. tcbs s cb = Some t" by (rule path_dom)
    with assms(2) show False by simp
  qed
  have p0: "path h0 ?r (?r # ys) ?r"
    unfolding h0_def using cbn p by (subst path_upd) blast+
  from d have "?r \<notin> set ys" by simp
  with p0 have walk: "ThreadNew_walk h0 ?r ?r = Some temp"
    unfolding temp_def by (rule ThreadNew_walk_path)
  have tin: "temp \<in> set (?r # ys)"
    unfolding temp_def by (rule last_in_set) simp
  with p obtain t where t: "tcbs s temp = Some t"
    by (blast dest: path_dom)
  from tin cbn have tcb: "temp \<noteq> cb" by auto
  with t have t0: "h0 temp = Some t" by (simp add: h0_def)
  define h2 where "h2 = (h0(temp := Some (t\<lparr>nxt := cb\<rparr>)))(cb := Some (c\<lparr>nxt := ?r\<rparr>))"
  have res: "EOS_ThreadNew f p ts sz fpu cb stk s = Some (cb, s\<lparr>tcbs := h2\<rparr>)"
    using False walk t0
    by (simp add: EOS_ThreadNew_def Let_def h2_def h0_def c_def)
  define zs where "zs = butlast (?r # ys)"
  have decomp: "?r # ys = zs @ [temp]"
    unfolding temp_def zs_def by (rule append_butlast_last_id [symmetric]) simp
  have "path (tcbs s) ?r (zs @ [temp]) ?r"
    unfolding decomp [symmetric] by (rule p)
  then obtain m where m: "path (tcbs s) ?r zs m" "path (tcbs s) m [temp] ?r"
    unfolding path_append by blast
  with t have mt: "m = temp" "nxt t = ?r" by auto
  have "distinct (zs @ [temp])"
    unfolding decomp [symmetric] by (rule d)
  then have tz: "temp \<notin> set zs" by simp
  have "cb \<notin> set (zs @ [temp])"
    unfolding decomp [symmetric] by (rule cbn)
  then have cz: "cb \<notin> set zs" by simp
  from m(1) mt tz cz have "path h2 ?r zs temp"
    by (simp add: h2_def h0_def path_upd)
  moreover from tcb have "path h2 temp [temp, cb] ?r"
    by (simp add: h2_def)
  ultimately have "path h2 ?r (zs @ [temp, cb]) ?r"
    unfolding path_append by blast
  moreover have "zs @ [temp, cb] = ?r # ys @ [cb]"
    using decomp by simp
  ultimately have "path h2 ?r (?r # ys @ [cb]) ?r" by (simp only:)
  with d n cbn False have rg: "ring h2 (?r # ys @ [cb])"
    by (auto simp: ring_def)
  have fr: "\<forall>a. a \<notin> set (?r # ys @ [cb]) \<longrightarrow> h2 a = tcbs s a"
    using tin by (auto simp: h2_def h0_def)
  from res rg fr False show ?thesis by simp
qed

lemma ThreadNew_calls_ring:
  assumes "ring (tcbs s) (run_ptr s # ys)"
    and "\<forall>c\<in>set cs. tcbs s (a_control_block c) = None"
    and "distinct (map a_control_block cs)"
    and "\<forall>c\<in>set cs. a_control_block c \<noteq> NULL"
  shows "\<exists>hs s'. ThreadNew_calls cs s = Some (hs, s') \<and> length hs = length cs \<and>
     run_ptr s' = run_ptr s \<and>
     set (filter (\<lambda>h. h \<noteq> NULL) hs) \<subseteq> a_control_block ` set cs \<and>
     ring (tcbs s') (run_ptr s # ys @ filter (\<lambda>h. h \<noteq> NULL) hs)"
  using assms
proof (induction cs arbitrary: s ys)
  case Nil
  then show ?case by simp
next
  case (Cons c cs)
  let ?cb = "a_control_block c"
  from Cons.prems have fresh: "tcbs s ?cb = None" and alloc: "?cb \<noteq> NULL" by simp_all
  from Cons.prems(4) have allocs: "\<forall>c\<in>set cs. a_control_block c \<noteq> NULL" by simp
  from ThreadNew_step [OF Cons.prems(1) fresh alloc] obtain h s1 where
    st: "ThreadNew_call c s = Some (h, s1)" "run_ptr s1 = run_ptr s" and
    alt: "(h = NULL \<and> s1 = s) \<or>
      (h = ?cb \<and> ?cb \<noteq> NULL \<and> ring (tcbs s1) (run_ptr s # ys @ [?cb]) \<and>
       (\<forall>a. a \<notin> set (run_ptr s # ys @ [?cb]) \<longrightarrow> tcbs s1 a = tcbs s a))"
    unfolding ThreadNew_call_def by blast
  from Cons.prems(3) have dist: "distinct (map a_control_block cs)"
    by simp
  from Cons.prems(3) have notin: "\<forall>c'\<in>set cs. a_control_block c' \<noteq> ?cb"
    by (force simp: image_iff)
  from alt show ?case
  proof
    assume A: "h = NULL \<and> s1 = s"
    with Cons.prems have "ring (tcbs s1) (run_ptr s1 # ys)"
      "\<forall>c\<in>set cs. tcbs s1 (a_control_block c) = None"
      by simp_all
    from Cons.IH [OF this dist allocs] obtain hs s' where
      "ThreadNew_calls cs s1 = Some (hs, s')" "length hs = length cs" "run_ptr s' = run_ptr s1"
      "set (filter (\<lambda>h. h \<noteq> NULL) hs) \<subseteq> a_control_block ` set cs"
      "ring (tcbs s') (run_ptr s1 # ys @ filter (\<lambda>h. h \<noteq> NULL) hs)"
      by blast
    with st A show ?thesis by auto
  next
    assume B: "h = ?cb \<and> ?cb \<noteq> NULL \<and> ring (tcbs s1) (run_ptr s # ys @ [?cb]) \<and>
       (\<forall>a. a \<notin> set (run_ptr s # ys @ [?cb]) \<longrightarrow> tcbs s1 a = tcbs s a)"
    have fresh1: "\<forall>c'\<in>set cs. tcbs s1 (a_control_block c') = None"
    proof
      fix c' assume c': "c' \<in> set cs"
      with Cons.prems(2) have none: "tcbs s (a_control_block c') = None" by simp
      from Cons.prems(1) have "path (tcbs s) (run_ptr s) (run_ptr s # ys) (run_ptr s)"
        by (simp add: ring_def)
      then have "a_control_block c' \<in> set (run_ptr s # ys) \<Longrightarrow>
                 \<exists>t. tcbs s (a_control_block c') = Some t"
        by (rule path_dom)
      with none have "a_control_block c' \<notin> set (run_ptr s # ys)"
        by auto
      with c' notin have "a_control_block c' \<notin> set (run_ptr s # ys @ [?cb])" by auto
      with B none show "tcbs s1 (a_control_block c') = None" by simp
    qed
    from B st have "ring (tcbs s1) (run_ptr s1 # (ys @ [?cb]))" by simp
    from Cons.IH [OF this fresh1 dist allocs] obtain hs s' where
      "ThreadNew_calls cs s1 = Some (hs, s')" "length hs = length cs" "run_ptr s' = run_ptr s1"
      "set (filter (\<lambda>h. h \<noteq> NULL) hs) \<subseteq> a_control_block ` set cs"
      "ring (tcbs s') (run_ptr s1 # (ys @ [?cb]) @ filter (\<lambda>h. h \<noteq> NULL) hs)"
      by blast
    with st B show ?thesis by auto
  qed
qed

lemma ring_kernel_init: "ring (tcbs kernel_init) [idle_task]"
  by (simp add: ring_def kernel_init_def idle_tcb_def idle_task_def NULL_def)

lemma ring_all_follow:
  assumes "ring h xs" and "a \<in> set xs"
  shows "follow h (length xs) a = Some a \<and> (\<forall>k. 0 < k \<and> k < length xs \<longrightarrow> follow h k a \<noteq> Some a)"
proof -
  from ring_member_rotate [OF assms] obtain ys where
    ys: "ring h (a # ys)" "length (a # ys) = length xs"
    by blast
  from ring_follow [OF ys(1)] ys(2) show ?thesis
    by metis
qed

text \<open>
  C7. From the initial state, where the idle block alone forms the ring, every sequence of
  calls of \<open>EOS_ThreadNew\<close> in which \<open>malloc\<close> returns a control block for each call, at
  different addresses, none that of the idle block, returns. A call that returns
  \<open>EOS_ERROR\<close> (an argument is refused, or there is no stack) changes nothing. The handles
  of the successful calls, in the order of creation, follow the idle block in the ring, so
  that each new block sits immediately before \<open>run_ptr\<close>; no block occurs twice; with N
  successful calls, N + 1 steps along \<open>next\<close> lead from each block of the ring back to it
  and no smaller positive number does. The last part is the single call on any ring: the
  new block is placed at the end of the walk from \<open>run_ptr\<close>, immediately before \<open>run_ptr\<close>.
  A call for which the allocation of the control block fails while a stack is available is
  outside the theorem: the code then frees an address inside the stack.
\<close>

theorem ThreadNew_sequence_ring:
  assumes "distinct (map a_control_block cs)" and "idle_task \<notin> a_control_block ` set cs"
    and "NULL \<notin> a_control_block ` set cs"
  shows "(\<exists>hs s. ThreadNew_calls cs kernel_init = Some (hs, s) \<and> length hs = length cs \<and>
       run_ptr s = idle_task \<and>
       set (filter (\<lambda>h. h \<noteq> NULL) hs) \<subseteq> a_control_block ` set cs \<and>
       ring (tcbs s) (idle_task # filter (\<lambda>h. h \<noteq> NULL) hs) \<and>
       distinct (idle_task # filter (\<lambda>h. h \<noteq> NULL) hs) \<and>
       (\<forall>a\<in>set (idle_task # filter (\<lambda>h. h \<noteq> NULL) hs).
          follow (tcbs s) (length (filter (\<lambda>h. h \<noteq> NULL) hs) + 1) a = Some a \<and>
          (\<forall>k. 0 < k \<and> k < length (filter (\<lambda>h. h \<noteq> NULL) hs) + 1 \<longrightarrow>
               follow (tcbs s) k a \<noteq> Some a))) \<and>
    (\<forall>s ys c. ring (tcbs s) (run_ptr s # ys) \<longrightarrow> tcbs s (a_control_block c) = None \<longrightarrow>
       a_control_block c \<noteq> NULL \<longrightarrow>
       (\<exists>h s'. ThreadNew_call c s = Some (h, s') \<and> run_ptr s' = run_ptr s \<and>
          ((h = NULL \<and> s' = s) \<or>
           (h = a_control_block c \<and> h \<noteq> NULL \<and> ring (tcbs s') (run_ptr s # ys @ [h])))))"
proof (intro conjI allI impI)
  have r: "ring (tcbs kernel_init) (run_ptr kernel_init # [])"
    using ring_kernel_init by (simp add: kernel_init_def)
  have f: "\<forall>c\<in>set cs. tcbs kernel_init (a_control_block c) = None"
  proof
    fix c assume "c \<in> set cs"
    then have "a_control_block c \<in> a_control_block ` set cs" by (rule imageI)
    with assms(2) have "a_control_block c \<noteq> idle_task" by auto
    then show "tcbs kernel_init (a_control_block c) = None"
      by (simp add: kernel_init_def)
  qed
  have n: "\<forall>c\<in>set cs. a_control_block c \<noteq> NULL"
  proof
    fix c assume "c \<in> set cs"
    then have "a_control_block c \<in> a_control_block ` set cs" by (rule imageI)
    with assms(3) show "a_control_block c \<noteq> NULL" by auto
  qed
  from ThreadNew_calls_ring [OF r f assms(1) n] obtain hs s where
    hs: "ThreadNew_calls cs kernel_init = Some (hs, s)" "length hs = length cs"
      "run_ptr s = run_ptr kernel_init"
      "set (filter (\<lambda>h. h \<noteq> NULL) hs) \<subseteq> a_control_block ` set cs"
      "ring (tcbs s) (run_ptr kernel_init # [] @ filter (\<lambda>h. h \<noteq> NULL) hs)"
    by blast
  let ?xs = "idle_task # filter (\<lambda>h. h \<noteq> NULL) hs"
  from hs(5) have rg: "ring (tcbs s) ?xs"
    by (simp add: kernel_init_def)
  then have d: "distinct ?xs"
    by (simp only: ring_def)
  have "\<forall>a\<in>set ?xs. follow (tcbs s) (length (filter (\<lambda>h. h \<noteq> NULL) hs) + 1) a = Some a \<and>
          (\<forall>k. 0 < k \<and> k < length (filter (\<lambda>h. h \<noteq> NULL) hs) + 1 \<longrightarrow>
               follow (tcbs s) k a \<noteq> Some a)"
  proof
    fix a assume "a \<in> set ?xs"
    with rg have "follow (tcbs s) (length ?xs) a = Some a \<and>
        (\<forall>k. 0 < k \<and> k < length ?xs \<longrightarrow> follow (tcbs s) k a \<noteq> Some a)"
      by (rule ring_all_follow)
    then show "follow (tcbs s) (length (filter (\<lambda>h. h \<noteq> NULL) hs) + 1) a = Some a \<and>
          (\<forall>k. 0 < k \<and> k < length (filter (\<lambda>h. h \<noteq> NULL) hs) + 1 \<longrightarrow>
               follow (tcbs s) k a \<noteq> Some a)"
      by simp
  qed
  with hs rg d show "\<exists>hs s. ThreadNew_calls cs kernel_init = Some (hs, s) \<and> length hs = length cs \<and>
       run_ptr s = idle_task \<and>
       set (filter (\<lambda>h. h \<noteq> NULL) hs) \<subseteq> a_control_block ` set cs \<and>
       ring (tcbs s) (idle_task # filter (\<lambda>h. h \<noteq> NULL) hs) \<and>
       distinct (idle_task # filter (\<lambda>h. h \<noteq> NULL) hs) \<and>
       (\<forall>a\<in>set (idle_task # filter (\<lambda>h. h \<noteq> NULL) hs).
          follow (tcbs s) (length (filter (\<lambda>h. h \<noteq> NULL) hs) + 1) a = Some a \<and>
          (\<forall>k. 0 < k \<and> k < length (filter (\<lambda>h. h \<noteq> NULL) hs) + 1 \<longrightarrow>
               follow (tcbs s) k a \<noteq> Some a))"
    by (simp add: kernel_init_def)
next
  fix s :: kernel and ys and c :: ThreadNew_args
  assume "ring (tcbs s) (run_ptr s # ys)" and "tcbs s (a_control_block c) = None"
    and "a_control_block c \<noteq> NULL"
  from ThreadNew_step [OF this]
  show "\<exists>h s'. ThreadNew_call c s = Some (h, s') \<and> run_ptr s' = run_ptr s \<and>
          ((h = NULL \<and> s' = s) \<or>
           (h = a_control_block c \<and> h \<noteq> NULL \<and> ring (tcbs s') (run_ptr s # ys @ [h])))"
    unfolding ThreadNew_call_def by blast
qed

lemma demo_calls_handles: "map_option fst (ThreadNew_calls demo_calls kernel_init) = Some [64, 96]"
  by code_simp

text \<open>The theorem for \<open>demo_calls\<close>: the ring is idle (at 32), then 64, then 96.\<close>

theorem ThreadNew_sequence_ring_witness:
  "distinct (map a_control_block demo_calls) \<and> idle_task \<notin> a_control_block ` set demo_calls \<and>
   NULL \<notin> a_control_block ` set demo_calls \<and>
   (\<exists>s. ThreadNew_calls demo_calls kernel_init = Some ([64, 96], s) \<and>
        ring (tcbs s) [32, 64, 96] \<and> follow (tcbs s) 3 96 = Some 96 \<and>
        follow (tcbs s) 1 96 = Some 32 \<and> follow (tcbs s) 2 96 = Some 64)"
proof -
  have d: "distinct (map a_control_block demo_calls)"
    and i: "idle_task \<notin> a_control_block ` set demo_calls"
    and n: "NULL \<notin> a_control_block ` set demo_calls"
    by (simp_all add: demo_calls_def idle_task_def NULL_def)
  from ThreadNew_sequence_ring [OF d i n] obtain hs s where
    hs: "ThreadNew_calls demo_calls kernel_init = Some (hs, s)"
      "ring (tcbs s) (idle_task # filter (\<lambda>h. h \<noteq> NULL) hs)"
    by blast
  with demo_calls_handles have "hs = [64, 96]" by simp
  with hs have rg: "ring (tcbs s) [32, 64, 96]"
    by (simp add: idle_task_def NULL_def)
  then have "path (tcbs s) 32 [32, 64, 96] 32"
    by (simp add: ring_def)
  then have "follow (tcbs s) 3 96 = Some 96 \<and>
        follow (tcbs s) 1 96 = Some 32 \<and> follow (tcbs s) 2 96 = Some 64"
    by (auto simp: numeral_3_eq_3 numeral_2_eq_2 split: option.splits)
  with hs(1) \<open>hs = [64, 96]\<close> rg d i n show ?thesis by blast
qed

section \<open>The scheduler\<close>

text \<open>
  The loop of the scheduler along a path that ends at \<open>run_ptr\<close>: it returns the candidate
  it started with or a runnable block of the path.
\<close>

lemma scheduler_loop_path:
  "path h current xs r \<Longrightarrow> r \<notin> set xs \<Longrightarrow> h best = Some b \<Longrightarrow>
   \<exists>w. scheduler_loop h r current best = Some w \<and>
       (w = best \<or> (w \<in> set xs \<and> (\<exists>t. h w = Some t \<and> runnable t)))"
proof (induction xs arbitrary: current best b)
  case Nil
  then show ?case
    by (subst scheduler_loop.simps) simp
next
  case (Cons x xs)
  from Cons.prems obtain c where c: "current = x" "h x = Some c" "path h (nxt c) xs r"
    by (auto split: option.splits)
  from Cons.prems have xr: "x \<noteq> r" "r \<notin> set xs" by auto
  let ?take = "blocked c = 0 \<and> paused c = 0 \<and> priority b \<le> priority c"
  let ?best' = "if ?take then x else best"
  have unfold: "scheduler_loop h r current best = scheduler_loop h r (nxt c) ?best'"
    using c xr Cons.prems(3) by (subst scheduler_loop.simps) simp
  have "\<exists>b'. h ?best' = Some b'"
    using c Cons.prems(3) by simp
  then obtain b' where "h ?best' = Some b'" ..
  with c(3) xr(2) have "\<exists>w. scheduler_loop h r (nxt c) ?best' = Some w \<and>
       (w = ?best' \<or> (w \<in> set xs \<and> (\<exists>t. h w = Some t \<and> runnable t)))"
    by (rule Cons.IH)
  then obtain w where w: "scheduler_loop h r (nxt c) ?best' = Some w"
    "w = ?best' \<or> (w \<in> set xs \<and> (\<exists>t. h w = Some t \<and> runnable t))"
    by blast
  from w(2) c(2) have "w = best \<or> (w \<in> set (x # xs) \<and> (\<exists>t. h w = Some t \<and> runnable t))"
    by (auto simp: runnable_def split: if_splits)
  with w(1) unfold show ?case by simp
qed

text \<open>
  On a ring that holds the idle block the scheduler returns and changes \<open>run_ptr\<close> only; the
  block it elects is a runnable block of the ring, or it is the idle block.
\<close>

lemma scheduler_returns:
  assumes "ring (tcbs s) (run_ptr s # ys)" and "idle_task \<in> set (run_ptr s # ys)"
  shows "\<exists>w. EOS_scheduler s = Some (s\<lparr>run_ptr := w\<rparr>) \<and> w \<in> set (run_ptr s # ys) \<and>
           ((\<exists>t. tcbs s w = Some t \<and> runnable t) \<or> w = idle_task)"
proof -
  let ?h = "tcbs s" and ?r = "run_ptr s"
  from ring_run_parts [OF assms(1)] obtain r where
    r: "?h ?r = Some r" "path ?h (nxt r) ys ?r" and nr: "?r \<notin> set ys"
    by blast
  show ?thesis
  proof (cases "runnable r")
    case True
    from scheduler_loop_path [OF r(2) nr r(1)] obtain w where
      w: "scheduler_loop ?h ?r (nxt r) ?r = Some w"
         "w = ?r \<or> (w \<in> set ys \<and> (\<exists>t. ?h w = Some t \<and> runnable t))"
      by blast
    from True r w(1) have "EOS_scheduler s = Some (s\<lparr>run_ptr := w\<rparr>)"
      by (simp add: EOS_scheduler_def runnable_def)
    moreover from w(2) True r(1) have "w \<in> set (?r # ys) \<and> (\<exists>t. ?h w = Some t \<and> runnable t)"
      by auto
    ultimately show ?thesis by blast
  next
    case False
    show ?thesis
    proof (cases "idle_task = ?r")
      case True
      from scheduler_loop_path [OF r(2) nr r(1)] obtain w where
        w: "scheduler_loop ?h ?r (nxt r) ?r = Some w"
           "w = ?r \<or> (w \<in> set ys \<and> (\<exists>t. ?h w = Some t \<and> runnable t))"
        by blast
      from \<open>\<not> runnable r\<close> True r w(1) have "EOS_scheduler s = Some (s\<lparr>run_ptr := w\<rparr>)"
        by (auto simp: EOS_scheduler_def runnable_def)
      moreover from w(2) True have
        "w \<in> set (?r # ys) \<and> ((\<exists>t. ?h w = Some t \<and> runnable t) \<or> w = idle_task)"
        by auto
      ultimately show ?thesis by blast
    next
      case ne: False
      with assms(2) have "idle_task \<in> set ys" by simp
      then obtain pre post where split: "ys = pre @ idle_task # post"
        by (auto simp: in_set_conv_decomp)
      from r(2) have "\<exists>m. path ?h (nxt r) pre m \<and> path ?h m (idle_task # post) ?r"
        unfolding split path_append .
      then obtain i where i: "?h idle_task = Some i" and p: "path ?h (nxt i) post ?r"
        by (auto split: option.splits)
      from nr split have np: "?r \<notin> set post" by simp
      from scheduler_loop_path [OF p np i] obtain w where
        w: "scheduler_loop ?h ?r (nxt i) idle_task = Some w"
           "w = idle_task \<or> (w \<in> set post \<and> (\<exists>t. ?h w = Some t \<and> runnable t))"
        by blast
      from False r i w(1) have "EOS_scheduler s = Some (s\<lparr>run_ptr := w\<rparr>)"
        by (auto simp: EOS_scheduler_def runnable_def)
      moreover from w(2) split have
        "w \<in> set (?r # ys) \<and> ((\<exists>t. ?h w = Some t \<and> runnable t) \<or> w = idle_task)"
        by auto
      ultimately show ?thesis by blast
    qed
  qed
qed

lemma delay_demo_run: "map_option run_ptr delay_demo = Some 64"
  by code_simp

lemma delay_demo_blocks:
  "(case delay_demo of None \<Rightarrow> None
    | Some s \<Rightarrow> Some (map (\<lambda>a. map_option (\<lambda>t. (nxt t, blocked t, paused t, priority t)) (tcbs s a))
                       [32, 64, 96])) =
   Some [Some (64, 0, 0, 0), Some (96, 2, 0, 1), Some (32, 0, 0, 2)]"
  by code_simp

lemma delay_demo_scheduler:
  "(case delay_demo of None \<Rightarrow> None | Some s \<Rightarrow> map_option run_ptr (EOS_scheduler s)) = Some 32"
  by code_simp

lemma scheduler_tcbs: "EOS_scheduler s = Some s' \<Longrightarrow> tcbs s' = tcbs s"
  by (auto simp: EOS_scheduler_def split: option.splits if_splits)

text \<open>
  C1 at a failing input: the scheduler elects the idle block while a task is runnable. In
  the state \<open>delay_demo\<close> the ring is the idle block (at 32), the task A (at 64, low
  priority) and the task B (at 96, medium priority); A is running and has just called
  \<open>EOS_Delay\<close>, B is neither blocked nor paused. As \<open>run_ptr\<close> is not runnable the walk
  starts at the successor of the idle block, which is \<open>run_ptr\<close> itself, and the loop
  \<open>while (current_ptr != run_ptr)\<close> ends before its first turn: the blocks from \<open>run_ptr\<close>
  on to the idle block, here B, are not looked at, and the idle block is elected. The state
  is built from the initial one by calls of the kernel alone: two creations, \<open>EOS_Pause\<close> of
  B, a context switch (A is elected), \<open>EOS_Resume\<close> of B by A, which does not preempt, and
  \<open>EOS_Delay(5)\<close> by A.
\<close>

theorem scheduler_passes_over_runnable:
  "\<exists>s s' a b. delay_demo = Some s \<and> ring (tcbs s) [idle_task, 64, 96] \<and> run_ptr s = 64 \<and>
     tcbs s 64 = Some a \<and> \<not> runnable a \<and>
     tcbs s 96 = Some b \<and> runnable b \<and> priority b = ucast PRIORITY_MEDIUM \<and>
     EOS_scheduler s = Some s' \<and> tcbs s' = tcbs s \<and> run_ptr s' = idle_task"
proof -
  from delay_demo_run obtain s where s: "delay_demo = Some s" and run: "run_ptr s = 64"
    by auto
  have "map (\<lambda>a. map_option (\<lambda>t. (nxt t, blocked t, paused t, priority t)) (tcbs s a)) [32, 64, 96] =
      [Some (64, 0, 0, 0), Some (96, 2, 0, 1), Some (32, 0, 0, 2)]"
    using delay_demo_blocks unfolding s by simp
  then obtain i a b where
    i: "tcbs s 32 = Some i" "nxt i = 64" and
    a: "tcbs s 64 = Some a" "nxt a = 96" "blocked a = 2" and
    b: "tcbs s 96 = Some b" "nxt b = 32" "blocked b = 0" "paused b = 0" "priority b = 2"
    by auto
  from i a b have rg: "ring (tcbs s) [idle_task, 64, 96]"
    by (simp add: ring_def idle_task_def NULL_def)
  have "map_option run_ptr (EOS_scheduler s) = Some 32"
    using delay_demo_scheduler unfolding s by simp
  then obtain s' where s': "EOS_scheduler s = Some s'" "run_ptr s' = idle_task"
    by (auto simp: idle_task_def)
  from s'(1) have "tcbs s' = tcbs s" by (rule scheduler_tcbs)
  moreover from a have "\<not> runnable a" by (simp add: runnable_def)
  moreover from b have "runnable b" "priority b = ucast PRIORITY_MEDIUM"
    by (simp_all add: runnable_def PRIORITY_MEDIUM_def)
  ultimately show ?thesis
    using s rg run a(1) b(1) s' by blast
qed

text \<open>The same with the addresses and the priority written out.\<close>

theorem scheduler_passes_over_runnable_witness:
  "\<exists>s s'. delay_demo = Some s \<and> run_ptr s = 64 \<and>
     map_option (\<lambda>t. (blocked t, paused t, priority t)) (tcbs s 96) = Some (0, 0, 2) \<and>
     EOS_scheduler s = Some s' \<and> run_ptr s' = 32"
proof -
  from scheduler_passes_over_runnable obtain s s' a b where
    "delay_demo = Some s" "run_ptr s = 64" "tcbs s 96 = Some b" "runnable b"
    "priority b = ucast PRIORITY_MEDIUM" "EOS_scheduler s = Some s'" "run_ptr s' = idle_task"
    by blast
  then show ?thesis
    by (auto simp: runnable_def PRIORITY_MEDIUM_def idle_task_def)
qed

text \<open>
  The idle block itself stays runnable in \<open>delay_demo\<close>. It does not when \<open>EOS_Pause\<close> is
  called on \<open>run_ptr\<close>, which the header exports, from an interrupt handler while the idle
  task runs: in \<open>pause_demo\<close>, which is \<open>delay_demo\<close> with this call before the context
  switch, the scheduler elects the paused idle block while B is runnable.
\<close>

lemma pause_demo_scheduler:
  "(case pause_demo of None \<Rightarrow> None
    | Some s \<Rightarrow>
        (case EOS_scheduler s of None \<Rightarrow> None
         | Some s' \<Rightarrow> Some (run_ptr s',
             map (\<lambda>a. map_option (\<lambda>t. (blocked t, paused t, priority t)) (tcbs s' a)) [32, 64, 96]))) =
   Some (32, [Some (0, 1, 0), Some (2, 0, 1), Some (0, 0, 2)])"
  by code_simp

end
